theory Spec2Isabelle
  imports Main "HOL-Library.AList"
begin

section \<open>Python values, errors and containers\<close>

text \<open>
  The program is \<^verbatim>\<open>Tools/sanitize_avif.py\<close>. Every \<^verbatim>\<open>assert\<close> and every
  exception of a built-in operation is a value \<open>Inl e\<close>; a normal return is \<open>Inr v\<close>.
  Python's unbounded integers are \<open>int\<close>. A \<^verbatim>\<open>bytes\<close> object is a list of
  \<open>char\<close> (an Isabelle character is one byte); a \<^verbatim>\<open>str\<close> is the list of the
  bytes of its UTF-8 encoding.
\<close>

datatype error =
  AssertionError | IndexError | KeyError | TypeError | ValueError | StructError | AttributeError
  | UnboundLocalError | SystemExit | OSError

type_synonym bytes = "char list"

text \<open>The values stored under the keys of a box body (\<^verbatim>\<open>BoxBody = dict[str, Any]\<close>).\<close>

datatype any =
    NoneV
  | IntV int
  | StrV string
  | BytesV bytes
  | ListV "any list"
  | AssociationsV "(int \<times> (int \<times> bool) list) list"

type_synonym BoxHeader = "string \<rightharpoonup> int"
type_synonym BoxBody = "string \<rightharpoonup> any"

text \<open>The position a Python sequence of length \<open>len\<close> gives to the subscript \<open>i\<close>:
  \<open>-len .. -1\<close> address the elements from the back, \<open>0 .. len - 1\<close> from the front,
  every other subscript raises.\<close>

definition norm_index :: "nat \<Rightarrow> int \<Rightarrow> nat option" where
  "norm_index len i =
     (if 0 \<le> i \<and> i < int len then Some (nat i)
      else if - int len \<le> i \<and> i < 0 then Some (nat (int len + i))
      else None)"

definition py_index :: "'a list \<Rightarrow> int \<Rightarrow> error + 'a" where
  "py_index xs i = (case norm_index (length xs) i of None \<Rightarrow> Inl IndexError | Some j \<Rightarrow> Inr (xs ! j))"

definition py_setitem :: "'a list \<Rightarrow> int \<Rightarrow> 'a \<Rightarrow> error + 'a list" where
  "py_setitem xs i v = (case norm_index (length xs) i of None \<Rightarrow> Inl IndexError | Some j \<Rightarrow> Inr (xs[j := v]))"

text \<open>\<^verbatim>\<open>xs.insert(i, v)\<close>: the position is clamped into \<open>0 .. len(xs)\<close>, a negative one
  counting from the end.\<close>

definition py_insert :: "int \<Rightarrow> 'a \<Rightarrow> 'a list \<Rightarrow> 'a list" where
  "py_insert i v xs =
     (let n = int (length xs); k = (if i < 0 then max 0 (n + i) else min i n)
      in take (nat k) xs @ [v] @ drop (nat k) xs)"

text \<open>\<^verbatim>\<open>d.get(k, default)\<close> on a dictionary kept as an association list in insertion order.\<close>

definition dict_get :: "('k \<times> 'v) list \<Rightarrow> 'k \<Rightarrow> 'v \<Rightarrow> 'v" where
  "dict_get d k dflt = (case map_of d k of None \<Rightarrow> dflt | Some v \<Rightarrow> v)"

section \<open>The box tree\<close>

text \<open>
  \<^verbatim>\<open>class Box\<close>. The field \<^verbatim>\<open>parent\<close> is a non-owning reference upwards and is not a
  field here; \<^verbatim>\<open>end\<close>, \<^verbatim>\<open>size\<close> carry a suffix because the plain names are taken.
\<close>

datatype box = Box (type: string) (size_b: int) (start: int) (end_b: int)
  (sub_boxes: "box list option") (header: BoxHeader) (body: BoxBody) (needs_rewrite: bool)

text \<open>\<^verbatim>\<open>Box.__init__(box_type, parent, size, start)\<close>.\<close>

definition Box_init :: "string \<Rightarrow> int \<Rightarrow> int \<Rightarrow> box" where
  "Box_init box_type size0 start0 =
     Box box_type size0 start0 (start0 + size0) None Map.empty Map.empty False"

definition set_sub_boxes :: "box \<Rightarrow> box list option \<Rightarrow> box" where
  "set_sub_boxes b sb = Box (type b) (size_b b) (start b) (end_b b) sb (header b) (body b) (needs_rewrite b)"

definition set_header :: "box \<Rightarrow> BoxHeader \<Rightarrow> box" where
  "set_header b h = Box (type b) (size_b b) (start b) (end_b b) (sub_boxes b) h (body b) (needs_rewrite b)"

definition set_body :: "box \<Rightarrow> BoxBody \<Rightarrow> box" where
  "set_body b bd = Box (type b) (size_b b) (start b) (end_b b) (sub_boxes b) (header b) bd (needs_rewrite b)"

text \<open>\<^verbatim>\<open>Box.mark_for_rewrite\<close> on the box itself. The boxes of the \<^verbatim>\<open>parent\<close> chain are
  not part of the states of the property operations below; \<open>mark_path\<close> marks them in a
  tree of boxes.\<close>

definition mark_for_rewrite :: "box \<Rightarrow> box" where
  "mark_for_rewrite b = Box (type b) (size_b b) (start b) (end_b b) (sub_boxes b) (header b) (body b) True"

section \<open>The item property graph of \<^verbatim>\<open>ParsedFile\<close>\<close>

text \<open>
  \<^verbatim>\<open>class ParsedFile\<close>: the bytes of the source file behind \<^verbatim>\<open>self.reader\<close>, the
  top-level boxes, and \<^verbatim>\<open>self.ipma\<close> and \<^verbatim>\<open>self.ipco\<close>, the two boxes the property
  operations read and mutate. In the program these two are references into the tree under
  \<^verbatim>\<open>self.boxes\<close>; here they are the boxes themselves, and the property operations update
  them and leave \<^verbatim>\<open>boxes\<close> as parsed. \<^verbatim>\<open>self.ipma.body["associations"]\<close> is a dictionary
  from item id to the list of \<^verbatim>\<open>(property_index, essential)\<close> pairs.
\<close>

record parsed_file =
  reader :: bytes
  boxes :: "box list"
  ipma :: "box option"
  ipco :: "box option"

definition get_associations :: "box \<Rightarrow> error + (int \<times> (int \<times> bool) list) list" where
  "get_associations ipma_box =
     (case body ipma_box ''associations'' of
        None \<Rightarrow> Inl KeyError
      | Some (AssociationsV a) \<Rightarrow> Inr a
      | Some _ \<Rightarrow> Inl AttributeError)"

definition set_associations :: "box \<Rightarrow> (int \<times> (int \<times> bool) list) list \<Rightarrow> box" where
  "set_associations ipma_box a = set_body ipma_box ((body ipma_box)(''associations'' \<mapsto> AssociationsV a))"

subsection \<open>\<^verbatim>\<open>get_item_properties_for_item\<close>\<close>

fun collect_properties :: "box list \<Rightarrow> (int \<times> bool) list \<Rightarrow> (box \<times> bool) list \<Rightarrow> error + (box \<times> bool) list" where
  "collect_properties subs [] properties = Inr properties"
| "collect_properties subs ((property_index, essential) # rest) properties =
     (if \<not> (1 \<le> property_index \<and> property_index \<le> int (length subs) + 1) then Inl AssertionError
      else case py_index subs (property_index - 1) of
             Inl e \<Rightarrow> Inl e
           | Inr property_box \<Rightarrow> collect_properties subs rest (properties @ [(property_box, essential)]))"

definition get_item_properties_for_item :: "parsed_file \<Rightarrow> int \<Rightarrow> error + (box \<times> bool) list" where
  "get_item_properties_for_item self item_id =
     (case (ipma self, ipco self) of
        (Some ipma_box, Some ipco_box) \<Rightarrow>
          (case sub_boxes ipco_box of
             None \<Rightarrow> Inr []
           | Some subs \<Rightarrow>
               (case get_associations ipma_box of
                  Inl e \<Rightarrow> Inl e
                | Inr assoc \<Rightarrow> collect_properties subs (dict_get assoc item_id []) []))
      | _ \<Rightarrow> Inr [])"

subsection \<open>\<^verbatim>\<open>get_existing_property_if_present\<close> and \<^verbatim>\<open>_add_property_if_needed\<close>\<close>




subsection \<open>\<^verbatim>\<open>add_property_association\<close>\<close>

fun find_association :: "int \<Rightarrow> int \<Rightarrow> (int \<times> bool) list \<Rightarrow> int \<Rightarrow> error + (int \<times> bool)" where
  "find_association n ipco_index [] cur_index = Inr (-1, False)"
| "find_association n ipco_index ((property_index, cur_essential) # rest) cur_index =
     (if \<not> (1 \<le> property_index \<and> property_index \<le> n) then Inl AssertionError
      else if ipco_index = property_index - 1 then Inr (cur_index, cur_essential)
      else find_association n ipco_index rest (cur_index + 1))"

definition add_property_association ::
  "parsed_file \<Rightarrow> int \<Rightarrow> int \<Rightarrow> bool \<Rightarrow> int option \<Rightarrow> error + parsed_file" where
  "add_property_association self item_id ipco_index essential position =
     (case (ipma self, ipco self) of
        (Some ipma_box, Some ipco_box) \<Rightarrow>
          (case sub_boxes ipco_box of
             None \<Rightarrow> Inr self
           | Some subs \<Rightarrow>
               (case get_associations ipma_box of
                  Inl e \<Rightarrow> Inl e
                | Inr assoc \<Rightarrow>
                    (case find_association (int (length subs)) ipco_index (dict_get assoc item_id []) 0 of
                       Inl e \<Rightarrow> Inl e
                     | Inr (association_index, existing_association_essential) \<Rightarrow>
                         if association_index = -1 then
                           (let assoc1 = (if map_of assoc item_id = None
                                          then AList.update item_id [] assoc else assoc);
                                val = (ipco_index + 1, essential);
                                cur = dict_get assoc1 item_id [];
                                pos = (case position of None \<Rightarrow> int (length cur) | Some p \<Rightarrow> p);
                                assoc2 = AList.update item_id (py_insert pos val cur) assoc1
                            in Inr (self\<lparr>ipma := Some (mark_for_rewrite (set_associations ipma_box assoc2))\<rparr>))
                         else if essential \<and> \<not> existing_association_essential then
                           (case py_setitem (dict_get assoc item_id []) association_index
                                   (ipco_index + 1, essential) of
                              Inl e \<Rightarrow> Inl e
                            | Inr cur' \<Rightarrow>
                                Inr (self\<lparr>ipma := Some (mark_for_rewrite
                                        (set_associations ipma_box (AList.update item_id cur' assoc)))\<rparr>))
                         else Inr self)))
      | _ \<Rightarrow> Inr self)"

subsection \<open>\<^verbatim>\<open>add_property_for_item\<close>\<close>


subsection \<open>\<^verbatim>\<open>drop_unused_item_properties\<close>\<close>

fun count_props :: "(int \<times> bool) list \<Rightarrow> int list \<Rightarrow> error + int list" where
  "count_props [] prop_assoc_count = Inr prop_assoc_count"
| "count_props ((prop_index, essential) # rest) prop_assoc_count =
     (case py_index prop_assoc_count (prop_index - 1) of
        Inl e \<Rightarrow> Inl e
      | Inr c \<Rightarrow>
          (case py_setitem prop_assoc_count (prop_index - 1) (c + 1) of
             Inl e \<Rightarrow> Inl e
           | Inr cnt \<Rightarrow> count_props rest cnt))"

fun count_all :: "(int \<times> (int \<times> bool) list) list \<Rightarrow> int list \<Rightarrow> error + int list" where
  "count_all [] prop_assoc_count = Inr prop_assoc_count"
| "count_all ((item_id, associations) # rest) prop_assoc_count =
     (case count_props associations prop_assoc_count of
        Inl e \<Rightarrow> Inl e
      | Inr cnt \<Rightarrow> count_all rest cnt)"

text \<open>\<^verbatim>\<open>itertools.accumulate\<close>: the running sums.\<close>

fun accumulate_from :: "int \<Rightarrow> int list \<Rightarrow> int list" where
  "accumulate_from acc [] = []"
| "accumulate_from acc (x # xs) = (acc + x) # accumulate_from (acc + x) xs"

definition accumulate :: "int list \<Rightarrow> int list" where
  "accumulate xs = accumulate_from 0 xs"

fun remap_associations :: "int list \<Rightarrow> (int \<times> bool) list \<Rightarrow> error + (int \<times> bool) list" where
  "remap_associations decrement_count [] = Inr []"
| "remap_associations decrement_count ((prop_index, essential) # rest) =
     (case py_index decrement_count (prop_index - 1) of
        Inl e \<Rightarrow> Inl e
      | Inr d \<Rightarrow>
          (case remap_associations decrement_count rest of
             Inl e \<Rightarrow> Inl e
           | Inr rest' \<Rightarrow> Inr ((prop_index - d, essential) # rest')))"

fun remap_all :: "int list \<Rightarrow> (int \<times> (int \<times> bool) list) list \<Rightarrow> error + (int \<times> (int \<times> bool) list) list" where
  "remap_all decrement_count [] = Inr []"
| "remap_all decrement_count ((item_id, associations) # rest) =
     (case remap_associations decrement_count associations of
        Inl e \<Rightarrow> Inl e
      | Inr associations' \<Rightarrow>
          (case remap_all decrement_count rest of
             Inl e \<Rightarrow> Inl e
           | Inr rest' \<Rightarrow> Inr ((item_id, associations') # rest')))"

definition keep_used :: "int list \<Rightarrow> box list \<Rightarrow> box list" where
  "keep_used props_to_drop subs =
     map snd (filter (\<lambda>(index, b). props_to_drop ! index = 0) (zip [0..<length subs] subs))"

definition drop_unused_item_properties :: "parsed_file \<Rightarrow> error + parsed_file" where
  "drop_unused_item_properties self =
     (case (ipma self, ipco self) of
        (Some ipma_box, Some ipco_box) \<Rightarrow>
          (case sub_boxes ipco_box of
             None \<Rightarrow> Inr self
           | Some subs \<Rightarrow>
               (case get_associations ipma_box of
                  Inl e \<Rightarrow> Inl e
                | Inr assoc \<Rightarrow>
                    (case count_all assoc (replicate (length subs) 0) of
                       Inl e \<Rightarrow> Inl e
                     | Inr prop_assoc_count \<Rightarrow>
                         if count_list prop_assoc_count 0 = 0 then Inr self
                         else
                           (let props_to_drop = map (\<lambda>v. if v > 0 then 0 else 1) prop_assoc_count;
                                decrement_count = accumulate props_to_drop
                            in case remap_all decrement_count assoc of
                                 Inl e \<Rightarrow> Inl e
                               | Inr assoc' \<Rightarrow>
                                   Inr (self\<lparr>ipma := Some (set_associations ipma_box assoc'),
                                             ipco := Some (mark_for_rewrite
                                               (set_sub_boxes ipco_box (Some (keep_used props_to_drop subs))))\<rparr>)))))
      | _ \<Rightarrow> Inr self)"

subsection \<open>Reading the graph\<close>

text \<open>\<^verbatim>\<open>self.ipma.body["associations"].get(item_id, [])\<close>, the number of properties, and the
  range condition that the assertions of the operations test.\<close>

definition associations_of :: "parsed_file \<Rightarrow> int \<Rightarrow> (int \<times> bool) list" where
  "associations_of self item_id =
     (case ipma self of
        None \<Rightarrow> []
      | Some ipma_box \<Rightarrow> (case get_associations ipma_box of Inl e \<Rightarrow> [] | Inr assoc \<Rightarrow> dict_get assoc item_id []))"

definition valid_associations :: "nat \<Rightarrow> (int \<times> bool) list \<Rightarrow> bool" where
  "valid_associations n cur = list_all (\<lambda>(property_index, essential). 1 \<le> property_index \<and> property_index \<le> int n) cur"

definition property_count :: "parsed_file \<Rightarrow> int" where
  "property_count self =
     (case ipco self of
        None \<Rightarrow> 0
      | Some ipco_box \<Rightarrow> (case sub_boxes ipco_box of None \<Rightarrow> 0 | Some subs \<Rightarrow> int (length subs)))"

definition graph_ok :: "parsed_file \<Rightarrow> int \<Rightarrow> bool" where
  "graph_ok self item_id =
     (case (ipma self, ipco self) of
        (Some ipma_box, Some ipco_box) \<Rightarrow>
          (case (get_associations ipma_box, sub_boxes ipco_box) of
             (Inr assoc, Some subs) \<Rightarrow> valid_associations (length subs) (dict_get assoc item_id [])
           | _ \<Rightarrow> False)
      | _ \<Rightarrow> False)"


definition properties_of :: "parsed_file \<Rightarrow> box list" where
  "properties_of self =
     (case ipco self of
        None \<Rightarrow> []
      | Some ipco_box \<Rightarrow> (case sub_boxes ipco_box of None \<Rightarrow> [] | Some subs \<Rightarrow> subs))"


subsection \<open>A small property graph\<close>

definition ispe_body :: BoxBody where
  "ispe_body = [''width'' \<mapsto> IntV 64, ''height'' \<mapsto> IntV 64]"

definition full_header :: BoxHeader where
  "full_header = [''version'' \<mapsto> 0, ''flags'' \<mapsto> 0]"

definition ispe_box :: box where
  "ispe_box = Box ''ispe'' 20 100 120 None full_header ispe_body False"

definition pf_one_property :: "(int \<times> (int \<times> bool) list) list \<Rightarrow> parsed_file" where
  "pf_one_property assoc =
     \<lparr>reader = [], boxes = [], ipma = Some (Box ''ipma'' 30 200 230 None full_header [''associations'' \<mapsto> AssociationsV assoc] False),
      ipco = Some (Box ''ipco'' 28 92 120 (Some [ispe_box]) Map.empty Map.empty False)\<rparr>"


definition pixi_body :: BoxBody where
  "pixi_body = [''bits_per_channel'' \<mapsto> ListV [IntV 8, IntV 8, IntV 8]]"

subsection \<open>Reading the graph before and after compaction\<close>

definition all_associations :: "parsed_file \<Rightarrow> (int \<times> (int \<times> bool) list) list" where
  "all_associations self =
     (case ipma self of
        None \<Rightarrow> []
      | Some ipma_box \<Rightarrow> (case get_associations ipma_box of Inl e \<Rightarrow> [] | Inr assoc \<Rightarrow> assoc))"

text \<open>Every association of every item holds a property index within \<open>1 .. len(ipco.sub_boxes)\<close>.\<close>

definition graph_all_ok :: "parsed_file \<Rightarrow> bool" where
  "graph_all_ok self =
     (case (ipma self, ipco self) of
        (Some ipma_box, Some ipco_box) \<Rightarrow>
          (case (get_associations ipma_box, sub_boxes ipco_box) of
             (Inr assoc, Some subs) \<Rightarrow>
               list_all (\<lambda>(item_id, associations). valid_associations (length subs) associations) assoc
           | _ \<Rightarrow> False)
      | _ \<Rightarrow> False)"

text \<open>The property at 0-based position \<open>k\<close> has an association from some item.\<close>

definition is_used :: "(int \<times> (int \<times> bool) list) list \<Rightarrow> nat \<Rightarrow> bool" where
  "is_used assoc k =
     list_ex (\<lambda>(item_id, associations). list_ex (\<lambda>(prop_index, essential). prop_index = int k + 1) associations) assoc"

text \<open>The number of properties without association that precede the 1-based index \<open>p\<close>.\<close>

definition removed_before :: "(int \<times> (int \<times> bool) list) list \<Rightarrow> int \<Rightarrow> nat" where
  "removed_before assoc p = length (filter (\<lambda>k. \<not> is_used assoc k) [0..<nat (p - 1)])"

text \<open>How many associations of a list, and of all items, refer to position \<open>k\<close>.\<close>

definition occ :: "(int \<times> bool) list \<Rightarrow> nat \<Rightarrow> nat" where
  "occ associations k = length (filter (\<lambda>(p, e). p = int k + 1) associations)"

definition occ_all :: "(int \<times> (int \<times> bool) list) list \<Rightarrow> nat \<Rightarrow> nat" where
  "occ_all assoc k = sum_list (map (\<lambda>(item_id, associations). occ associations k) assoc)"

definition pf_three_properties :: parsed_file where
  "pf_three_properties =
     \<lparr>reader = [], boxes = [], ipma = Some (Box ''ipma'' 30 200 230 None full_header
               [''associations'' \<mapsto> AssociationsV [(1, [(1, True), (3, False)]), (2, [(3, True)])]] False),
      ipco = Some (Box ''ipco'' 68 92 160
               (Some [ispe_box, Box ''pixi'' 16 120 136 None full_header pixi_body False,
                      Box ''colr'' 24 136 160 None Map.empty Map.empty False])
               Map.empty Map.empty False)\<rparr>"

text \<open>The same three properties, with an item whose first association holds the property
  index 0, as \<^verbatim>\<open>parse_ipma_box\<close> stores it when the file has it.\<close>

definition pf_index_zero :: parsed_file where
  "pf_index_zero =
     \<lparr>reader = [], boxes = [], ipma = Some (Box ''ipma'' 30 200 230 None full_header
               [''associations'' \<mapsto> AssociationsV [(1, [(0, False), (1, True)])]] False),
      ipco = Some (Box ''ipco'' 68 92 160
               (Some [ispe_box, Box ''pixi'' 16 120 136 None full_header pixi_body False,
                      Box ''colr'' 24 136 160 None Map.empty Map.empty False])
               Map.empty Map.empty False)\<rparr>"

section \<open>Reading the source src\<close>

text \<open>
  \<^verbatim>\<open>class FileReader\<close>. The file is its bytes; the position of the underlying file object
  is passed in and returned. \<^verbatim>\<open>file.read(n)\<close> returns the bytes that are left when fewer
  than \<open>n\<close> remain, and \<^verbatim>\<open>seek\<close> may move past the end.
\<close>

text \<open>\<^verbatim>\<open>bytes.decode()\<close> succeeds on well-formed UTF-8 only.\<close>

definition byte_in :: "char \<Rightarrow> nat \<Rightarrow> nat \<Rightarrow> bool" where
  "byte_in c lo hi = (lo \<le> of_char c \<and> of_char c \<le> hi)"

fun valid_utf8 :: "bytes \<Rightarrow> bool" where
  "valid_utf8 [] = True"
| "valid_utf8 [c] = byte_in c 0x00 0x7F"
| "valid_utf8 [c, c1] =
     (if byte_in c 0x00 0x7F then valid_utf8 [c1]
      else byte_in c 0xC2 0xDF \<and> byte_in c1 0x80 0xBF)"
| "valid_utf8 [c, c1, c2] =
     (if byte_in c 0x00 0x7F then valid_utf8 [c1, c2]
      else if byte_in c 0xC2 0xDF then byte_in c1 0x80 0xBF \<and> valid_utf8 [c2]
      else if byte_in c 0xE0 0xE0 then byte_in c1 0xA0 0xBF \<and> byte_in c2 0x80 0xBF
      else if byte_in c 0xE1 0xEC \<or> byte_in c 0xEE 0xEF then byte_in c1 0x80 0xBF \<and> byte_in c2 0x80 0xBF
      else byte_in c 0xED 0xED \<and> byte_in c1 0x80 0x9F \<and> byte_in c2 0x80 0xBF)"
| "valid_utf8 (c # c1 # c2 # c3 # rest) =
     (if byte_in c 0x00 0x7F then valid_utf8 (c1 # c2 # c3 # rest)
      else if byte_in c 0xC2 0xDF then byte_in c1 0x80 0xBF \<and> valid_utf8 (c2 # c3 # rest)
      else if byte_in c 0xE0 0xE0 then byte_in c1 0xA0 0xBF \<and> byte_in c2 0x80 0xBF \<and> valid_utf8 (c3 # rest)
      else if byte_in c 0xE1 0xEC \<or> byte_in c 0xEE 0xEF
        then byte_in c1 0x80 0xBF \<and> byte_in c2 0x80 0xBF \<and> valid_utf8 (c3 # rest)
      else if byte_in c 0xED 0xED then byte_in c1 0x80 0x9F \<and> byte_in c2 0x80 0xBF \<and> valid_utf8 (c3 # rest)
      else if byte_in c 0xF0 0xF0
        then byte_in c1 0x90 0xBF \<and> byte_in c2 0x80 0xBF \<and> byte_in c3 0x80 0xBF \<and> valid_utf8 rest
      else if byte_in c 0xF1 0xF3
        then byte_in c1 0x80 0xBF \<and> byte_in c2 0x80 0xBF \<and> byte_in c3 0x80 0xBF \<and> valid_utf8 rest
      else byte_in c 0xF4 0xF4 \<and> byte_in c1 0x80 0x8F \<and> byte_in c2 0x80 0xBF \<and> byte_in c3 0x80 0xBF
           \<and> valid_utf8 rest)"

definition rstrip_nul :: "string \<Rightarrow> string" where
  "rstrip_nul s = rev (dropWhile (\<lambda>c. c = CHR 0x00) (rev s))"

definition decode_data_to_string :: "bytes \<Rightarrow> string" where
  "decode_data_to_string data = rstrip_nul (if valid_utf8 data then data else ''CORRUPT'')"

text \<open>\<^verbatim>\<open>struct.unpack\<close> of one big-endian integer.\<close>

definition be_uint :: "bytes \<Rightarrow> int" where
  "be_uint data = foldl (\<lambda>a c. a * 256 + of_char c) 0 data"

definition be_sint :: "bytes \<Rightarrow> int" where
  "be_sint data =
     (if be_uint data < 2 ^ (8 * length data - 1) then be_uint data
      else be_uint data - 2 ^ (8 * length data))"

definition read_data :: "bytes \<Rightarrow> int \<Rightarrow> int \<Rightarrow> int option \<Rightarrow> error + (bytes \<times> int)" where
  "read_data src pos nbytes end_pos =
     (if \<not> (pos + nbytes \<le> (case end_pos of None \<Rightarrow> int (length src) | Some e \<Rightarrow> e))
      then Inl AssertionError
      else (let data = take (nat nbytes) (drop (nat pos) src)
            in Inr (data, pos + int (length data))))"

definition read_integer_of_size ::
  "bytes \<Rightarrow> int \<Rightarrow> int \<Rightarrow> int \<Rightarrow> bool \<Rightarrow> error + (int \<times> int)" where
  "read_integer_of_size src pos end_pos nbytes unsigned =
     (case read_data src pos nbytes (Some end_pos) of
        Inl e \<Rightarrow> Inl e
      | Inr (data, pos') \<Rightarrow>
          if nbytes \<notin> {1, 2, 4, 8} then Inl AssertionError
          else if int (length data) \<noteq> nbytes then Inl StructError
          else Inr (if unsigned then be_uint data else be_sint data, pos'))"

text \<open>\<^verbatim>\<open>read_string\<close> with \<^verbatim>\<open>size == 0\<close>: at most \<^verbatim>\<open>max_length\<close> bytes, up to a NUL byte.
  At the end of the file \<^verbatim>\<open>file.read(1)\<close> is empty and \<^verbatim>\<open>byte[0]\<close> raises.\<close>

fun read_terminated :: "bytes \<Rightarrow> int \<Rightarrow> nat \<Rightarrow> bytes \<Rightarrow> error + (string option \<times> int)" where
  "read_terminated src pos 0 buf =
     Inr (if length buf > 0 then Some (decode_data_to_string buf) else None, pos)"
| "read_terminated src pos (Suc n) buf =
     (case drop (nat pos) src of
        [] \<Rightarrow> Inl IndexError
      | c # rest \<Rightarrow>
          if of_char c = (0::nat)
          then Inr (if length buf > 0 then Some (decode_data_to_string buf) else None, pos + 1)
          else read_terminated src (pos + 1) n (buf @ [c]))"

definition read_string :: "bytes \<Rightarrow> int \<Rightarrow> int \<Rightarrow> int \<Rightarrow> error + (string option \<times> int)" where
  "read_string src pos end_pos size0 =
     (if size0 = 0 then read_terminated src pos (nat (end_pos - pos)) []
      else (case read_data src pos size0 (Some end_pos) of
              Inl e \<Rightarrow> Inl e
            | Inr (data, pos') \<Rightarrow> Inr (Some (decode_data_to_string data), pos')))"

section \<open>Parsing boxes\<close>

text \<open>\<^verbatim>\<open>Box.from_reader(reader, end, parent)\<close>: the box read at the reader's position, and the
  position after its header.\<close>

definition from_reader :: "bytes \<Rightarrow> int \<Rightarrow> int \<Rightarrow> error + (box \<times> int)" where
  "from_reader src pos end_pos =
     (let start0 = pos in
      case read_integer_of_size src pos end_pos 4 True of
        Inl e \<Rightarrow> Inl e
      | Inr (size0, pos1) \<Rightarrow>
          (case read_string src pos1 end_pos 4 of
             Inl e \<Rightarrow> Inl e
           | Inr (None, pos2) \<Rightarrow> Inl AssertionError
           | Inr (Some box_type, pos2) \<Rightarrow>
               (case (if size0 = 1 then read_integer_of_size src pos2 end_pos 8 True
                      else if size0 = 0 then Inr (end_pos - size0, pos2)
                      else Inr (size0, pos2)) of
                  Inl e \<Rightarrow> Inl e
                | Inr (size1, pos3) \<Rightarrow>
                    if \<not> size1 \<ge> 8 then Inl AssertionError
                    else Inr (Box_init box_type size1 start0, pos3))))"

text \<open>
  \<^verbatim>\<open>class BoxRecipe\<close>. A body parser is a callable on the reader and the box; it returns the
  body and moves the reader, and the only field of the box that the body parsers of the
  program assign is \<^verbatim>\<open>sub_boxes\<close>. So a body parser here maps the file, the position and
  the box to the body, the box's \<^verbatim>\<open>sub_boxes\<close> and the new position.
\<close>

type_synonym BoxBodyParser = "bytes \<Rightarrow> int \<Rightarrow> box \<Rightarrow> error + (BoxBody \<times> box list option \<times> int)"

datatype recipe = BoxRecipe (name: string) (full_box: bool)
  (sequence_map: "(string \<times> recipe) list option") (body_parser: "BoxBodyParser option")

fun depth :: "recipe \<Rightarrow> nat" where
  "depth (BoxRecipe n f sm bp) =
     (case sm of None \<Rightarrow> 0 | Some m \<Rightarrow> Suc (sum_list (map (\<lambda>p. depth (snd p)) m)))"

definition map_depth :: "(string \<times> recipe) list \<Rightarrow> nat" where
  "map_depth m = sum_list (map (\<lambda>p. depth (snd p)) m)"

text \<open>\<^verbatim>\<open>box_map.get(box.type, None)\<close>, then \<^verbatim>\<open>box_map.get("default", BoxRecipe("Unknown"))\<close>.\<close>

definition find_recipe :: "(string \<times> recipe) list \<Rightarrow> string \<Rightarrow> recipe" where
  "find_recipe box_map box_type =
     (case map_of box_map box_type of
        Some r \<Rightarrow> r
      | None \<Rightarrow> (case map_of box_map ''default'' of
                   Some r \<Rightarrow> r
                 | None \<Rightarrow> BoxRecipe ''Unknown'' False None None))"

text \<open>The version and flags of a full box: \<^verbatim>\<open>read_integer_array_of_size(dst_box.end, 1, 4)\<close>.\<close>

definition read_full_box_header :: "bytes \<Rightarrow> int \<Rightarrow> int \<Rightarrow> error + (BoxHeader \<times> int)" where
  "read_full_box_header src pos end_pos =
     (case read_integer_of_size src pos end_pos 1 True of
        Inl e \<Rightarrow> Inl e
      | Inr (version, pos1) \<Rightarrow>
     (case read_integer_of_size src pos1 end_pos 1 True of
        Inl e \<Rightarrow> Inl e
      | Inr (flags1, pos2) \<Rightarrow>
     (case read_integer_of_size src pos2 end_pos 1 True of
        Inl e \<Rightarrow> Inl e
      | Inr (flags2, pos3) \<Rightarrow>
     (case read_integer_of_size src pos3 end_pos 1 True of
        Inl e \<Rightarrow> Inl e
      | Inr (flags3, pos4) \<Rightarrow>
          Inr ([''version'' \<mapsto> version, ''flags'' \<mapsto> flags1 * 65536 + flags2 * 256 + flags3], pos4)))))"

text \<open>What the termination of the parser rests on: a box read from the source is at
  least 8 bytes long, and a recipe found in a table is no deeper than the table.\<close>

lemma from_reader_end:
  "from_reader src pos end_pos = Inr (b, pos1) \<Longrightarrow>
     start b = pos \<and> end_b b = pos + size_b b \<and> 8 \<le> size_b b"
  by (auto simp: from_reader_def Box_init_def Let_def
           split: sum.splits option.splits if_splits prod.splits)

lemma depth_map_of: "map_of m k = Some r \<Longrightarrow> depth r \<le> map_depth m"
  by (induction m) (auto simp: map_depth_def split: if_splits)

lemma depth_find_recipe: "depth (find_recipe m k) \<le> map_depth m"
  by (auto simp: find_recipe_def depth_map_of split: option.splits)

text \<open>
  \<^verbatim>\<open>parse_box_sequence\<close> and \<^verbatim>\<open>BoxRecipe.parse\<close>. The loop of \<^verbatim>\<open>parse_box_sequence\<close> is
  the recursion on the reader position \<open>pos\<close> and the list of the boxes read so far (empty
  at the call). \<^verbatim>\<open>BoxRecipe.parse\<close> assigns the header, the children and the body of
  \<^verbatim>\<open>dst_box\<close>; it returns them here together with the reader position.
\<close>

function parse_box_sequence ::
    "bytes \<Rightarrow> int \<Rightarrow> int \<Rightarrow> (string \<times> recipe) list \<Rightarrow> int option \<Rightarrow> box list \<Rightarrow> error + (box list \<times> int)"
  and recipe_parse ::
    "recipe \<Rightarrow> bytes \<Rightarrow> int \<Rightarrow> box \<Rightarrow> error + (BoxHeader \<times> box list option \<times> BoxBody \<times> int)"
where
  "parse_box_sequence src pos end_pos box_map expected_box_count read_boxes =
     (if pos \<le> end_pos - 8 then
        (case from_reader src pos end_pos of
           Inl e \<Rightarrow> Inl e
         | Inr (box, pos1) \<Rightarrow>
             (case recipe_parse (find_recipe box_map (type box)) src pos1 box of
                Inl e \<Rightarrow> Inl e
              | Inr (hdr, subs, bdy, pos2) \<Rightarrow>
                  if \<not> pos2 \<le> end_b box then Inl AssertionError
                  else parse_box_sequence src (end_b box) end_pos box_map expected_box_count
                         (read_boxes @ [set_body (set_sub_boxes (set_header box hdr) subs) bdy])))
      else if expected_box_count \<noteq> None \<and> expected_box_count \<noteq> Some (int (length read_boxes)) then
        (if \<not> expected_box_count \<noteq> Some (int (length read_boxes)) then Inl AssertionError
         else Inr (read_boxes, pos))
      else Inr (read_boxes, pos))"
| "recipe_parse recipe src pos dst_box =
     (case (if full_box recipe then read_full_box_header src pos (end_b dst_box)
            else Inr (header dst_box, pos)) of
        Inl e \<Rightarrow> Inl e
      | Inr (hdr, pos1) \<Rightarrow>
          (case sequence_map recipe of
             Some m \<Rightarrow>
               (case parse_box_sequence src pos1 (end_b dst_box) m None [] of
                  Inl e \<Rightarrow> Inl e
                | Inr (subs, pos2) \<Rightarrow> Inr (hdr, Some subs, body dst_box, pos2))
           | None \<Rightarrow>
               (case body_parser recipe of
                  Some parser \<Rightarrow>
                    (case parser src pos1 (set_header dst_box hdr) of
                       Inl e \<Rightarrow> Inl e
                     | Inr (bdy, subs, pos2) \<Rightarrow> Inr (hdr, subs, bdy, pos2))
                | None \<Rightarrow> Inr (hdr, sub_boxes dst_box, body dst_box, end_b dst_box))))"
  by pat_completeness auto

termination
proof (relation "measures [
    (\<lambda>x. case x of Inl (src, pos, end_pos, box_map, expected, read_boxes) \<Rightarrow> 2 * map_depth box_map + 1
                   | Inr (recipe, src, pos, dst_box) \<Rightarrow> 2 * depth recipe),
    (\<lambda>x. case x of Inl (src, pos, end_pos, box_map, expected, read_boxes) \<Rightarrow> nat (end_pos - pos)
                   | Inr (recipe, src, pos, dst_box) \<Rightarrow> 0)]", goal_cases)
  case 1
  then show ?case by simp
next
  case (2 src pos end_pos box_map expected_box_count read_boxes x2 x y)
  then show ?case using depth_find_recipe[of box_map "type x"] by simp
next
  case (3 src pos end_pos box_map expected_box_count read_boxes x2 x y x2a xa ya xb yb xc yc)
  then show ?case using from_reader_end[of src pos end_pos x y] by auto
next
  case (4 recipe src pos dst_box x2 x y x2a)
  then show ?case by (cases recipe) (simp add: map_depth_def)
qed

subsection \<open>The recipes of the top level\<close>

text \<open>\<^verbatim>\<open>parse_unsupported_box\<close>: \<^verbatim>\<open>assert False\<close>.\<close>

definition parse_unsupported_box :: BoxBodyParser where
  "parse_unsupported_box src pos b = Inl AssertionError"

text \<open>\<^verbatim>\<open>parse_ftyp_box\<close>. The brands are read by \<^verbatim>\<open>read_string(box.end, size=4)\<close>;
  \<^verbatim>\<open>int((box.end - reader.position()) / 4)\<close> is the quotient of a non-negative number.\<close>

definition str_value :: "string option \<Rightarrow> any" where
  "str_value s = (case s of None \<Rightarrow> NoneV | Some t \<Rightarrow> StrV t)"

fun read_brands :: "bytes \<Rightarrow> int \<Rightarrow> int \<Rightarrow> nat \<Rightarrow> any list \<Rightarrow> error + (any list \<times> int)" where
  "read_brands src pos end_pos 0 compatible = Inr (compatible, pos)"
| "read_brands src pos end_pos (Suc n) compatible =
     (case read_string src pos end_pos 4 of
        Inl e \<Rightarrow> Inl e
      | Inr (brand, pos') \<Rightarrow> read_brands src pos' end_pos n (compatible @ [str_value brand]))"

definition parse_ftyp_box :: BoxBodyParser where
  "parse_ftyp_box src pos b =
     (case read_string src pos (end_b b) 4 of
        Inl e \<Rightarrow> Inl e
      | Inr (major, pos1) \<Rightarrow>
     (case read_integer_of_size src pos1 (end_b b) 4 True of
        Inl e \<Rightarrow> Inl e
      | Inr (version, pos2) \<Rightarrow>
     (let num_brands = (end_b b - pos2) div 4 in
      case read_brands src pos2 (end_b b) (nat num_brands) [] of
        Inl e \<Rightarrow> Inl e
      | Inr (compatible, pos3) \<Rightarrow>
          Inr ([''major'' \<mapsto> str_value major, ''version'' \<mapsto> IntV version,
                ''compatible'' \<mapsto> ListV compatible],
               sub_boxes b, pos3))))"

text \<open>\<^verbatim>\<open>MAP_TOP_LEVEL\<close>. The recipe tables of the children of \<^verbatim>\<open>meta\<close> and \<^verbatim>\<open>moov\<close>
  (\<^verbatim>\<open>MAP_META_BOX\<close>, \<^verbatim>\<open>MAP_MOOV_BOX\<close>) are parameters.\<close>

definition MAP_TOP_LEVEL :: "(string \<times> recipe) list \<Rightarrow> (string \<times> recipe) list \<Rightarrow> (string \<times> recipe) list" where
  "MAP_TOP_LEVEL MAP_META_BOX MAP_MOOV_BOX =
     [(''ftyp'', BoxRecipe ''File Type Box'' False None (Some parse_ftyp_box)),
      (''meta'', BoxRecipe ''Meta Box'' True (Some MAP_META_BOX) None),
      (''moov'', BoxRecipe ''Movie Box'' False (Some MAP_MOOV_BOX) None),
      (''moof'', BoxRecipe ''Unsupported box'' False None (Some parse_unsupported_box))]"

subsection \<open>\<^verbatim>\<open>ParsedFile.__init__\<close>\<close>

text \<open>\<^verbatim>\<open>get_box_from_hierarchy\<close>: the first box of the array whose type is the head of the
  hierarchy decides; \<^verbatim>\<open>box_array = None\<close> stands for \<^verbatim>\<open>self.boxes\<close>.\<close>

fun get_box_from_hierarchy :: "box list \<Rightarrow> string list \<Rightarrow> box list option \<Rightarrow> error + box option" where
  "get_box_from_hierarchy self_boxes [] box_array =
     (case (case box_array of None \<Rightarrow> self_boxes | Some a \<Rightarrow> a) of
        [] \<Rightarrow> Inr None
      | b # rest \<Rightarrow> Inl IndexError)"
| "get_box_from_hierarchy self_boxes (h # hs) box_array =
     (case List.find (\<lambda>b. type b = h) (case box_array of None \<Rightarrow> self_boxes | Some a \<Rightarrow> a) of
        None \<Rightarrow> Inr None
      | Some b \<Rightarrow> if length (h # hs) = 1 then Inr (Some b)
                  else get_box_from_hierarchy self_boxes hs (sub_boxes b))"

definition ParsedFile_init ::
  "(string \<times> recipe) list \<Rightarrow> (string \<times> recipe) list \<Rightarrow> bytes \<Rightarrow> error + parsed_file" where
  "ParsedFile_init MAP_META_BOX MAP_MOOV_BOX src =
     (let size0 = int (length src) in
      if \<not> size0 > 8 then Inl AssertionError
      else case read_integer_of_size src 0 size0 4 True of
        Inl e \<Rightarrow> Inl e
      | Inr (box_size, pos1) \<Rightarrow>
          if \<not> box_size > 8 then Inl AssertionError
          else (case read_string src pos1 size0 4 of
             Inl e \<Rightarrow> Inl e
           | Inr (box_type, pos2) \<Rightarrow>
               if box_type \<noteq> Some ''ftyp'' then Inl SystemExit
               else (case parse_box_sequence src 0 size0 (MAP_TOP_LEVEL MAP_META_BOX MAP_MOOV_BOX) None [] of
                  Inl e \<Rightarrow> Inl e
                | Inr (bs, pos3) \<Rightarrow>
                    (case get_box_from_hierarchy bs [''meta'', ''iprp'', ''ipma''] None of
                       Inl e \<Rightarrow> Inl e
                     | Inr ipma0 \<Rightarrow>
                         (case get_box_from_hierarchy bs [''meta'', ''iprp'', ''ipco''] None of
                            Inl e \<Rightarrow> Inl e
                          | Inr ipco0 \<Rightarrow>
                              Inr \<lparr>reader = src, boxes = bs, ipma = ipma0, ipco = ipco0\<rparr>)))))"

section \<open>Writing the file\<close>

text \<open>
  The destination is a file opened with \<^verbatim>\<open>open(dst, "wb")\<close>: its bytes and its position.
  \<^verbatim>\<open>write\<close> overwrites from the position on and extends the file when it runs past the
  end; a position beyond the end is filled with zero bytes first. \<^verbatim>\<open>seek\<close> to a negative
  position raises \<^verbatim>\<open>OSError\<close>.
\<close>

record out_file =
  content :: bytes
  out_pos :: int

definition output_write :: "out_file \<Rightarrow> bytes \<Rightarrow> out_file" where
  "output_write out data =
     (let p = nat (out_pos out);
          padded = content out @ replicate (p - length (content out)) (CHR 0x00)
      in \<lparr>content = take p padded @ data @ drop (p + length data) padded,
          out_pos = out_pos out + int (length data)\<rparr>)"

definition output_seek :: "out_file \<Rightarrow> int \<Rightarrow> error + out_file" where
  "output_seek out p = (if p < 0 then Inl OSError else Inr (out\<lparr>out_pos := p\<rparr>))"

text \<open>
  \<^verbatim>\<open>FileReader.copy_data_to_destination\<close>. The loop ends when \<^verbatim>\<open>count\<close> reaches zero;
  a read at the end of the source returns no bytes and leaves \<^verbatim>\<open>count\<close> as it is. The
  result \<open>None\<close> stands for a loop that does not end. The reader's own position is
  restored afterwards and is not part of the result.
\<close>

partial_function (option) copy_loop :: "bytes \<Rightarrow> int \<Rightarrow> int \<Rightarrow> out_file \<Rightarrow> out_file option" where
  "copy_loop src pos count out =
     (if count > 0 then
        (let data = take (nat (min 32768 count)) (drop (nat pos) src)
         in copy_loop src (pos + int (length data)) (count - int (length data)) (output_write out data))
      else Some out)"

definition copy_data_to_destination :: "bytes \<Rightarrow> out_file \<Rightarrow> int \<Rightarrow> int \<Rightarrow> out_file option" where
  "copy_data_to_destination src out offset count = copy_loop src offset count out"

text \<open>
  \<^verbatim>\<open>class PlaceholderFileOffset\<close>: the position in the output, the byte width, the value and
  the dependent placeholders. The references \<^verbatim>\<open>box\<close> and \<^verbatim>\<open>base\<close> point back to the
  owners; \<^verbatim>\<open>base.add_dependent(self)\<close> is the entry in \<^verbatim>\<open>dependents\<close> of the base.
\<close>

datatype placeholder = PlaceholderFileOffset (file_pos: int) (size_p: int) (value_p: int)
  (dependents: "placeholder list")

definition get_offset_list :: "placeholder \<Rightarrow> int list" where
  "get_offset_list p =
     (if length (dependents p) > 0 then map (\<lambda>dep. value_p p + value_p dep) (dependents p)
      else [value_p p])"

text \<open>\<^verbatim>\<open>write_integer_of_size\<close> for an unsigned value: \<^verbatim>\<open>get_struct_type\<close> asserts the
  width, \<^verbatim>\<open>struct.pack\<close> raises on a value that does not fit.\<close>

fun be_bytes :: "nat \<Rightarrow> int \<Rightarrow> bytes" where
  "be_bytes 0 v = []"
| "be_bytes (Suc n) v = be_bytes n (v div 256) @ [char_of (v mod 256)]"

definition write_integer_of_size :: "int \<Rightarrow> int \<Rightarrow> error + bytes" where
  "write_integer_of_size v nbytes =
     (if nbytes \<notin> {1, 2, 4, 8} then Inl AssertionError
      else if v < 0 \<or> 2 ^ (8 * nat nbytes) \<le> v then Inl StructError
      else Inr (be_bytes (nat nbytes) v))"

text \<open>\<^verbatim>\<open>PlaceholderFileOffset.write_delta\<close>. \<^verbatim>\<open>1 << self.size * 8\<close> raises for a negative
  width.\<close>

definition write_delta :: "placeholder \<Rightarrow> out_file \<Rightarrow> int \<Rightarrow> error + out_file" where
  "write_delta p out delta =
     (let new_value = value_p p + delta in
      if \<not> new_value \<ge> 0 then Inl AssertionError
      else if size_p p < 0 then Inl ValueError
      else (let max_val = 2 ^ nat (size_p p * 8) - 1 in
            if \<not> new_value \<le> max_val then Inl AssertionError
            else (case write_integer_of_size new_value (size_p p) of
                    Inl e \<Rightarrow> Inl e
                  | Inr data \<Rightarrow>
                      (let current_pos = out_pos out
                       in case output_seek out (file_pos p) of
                            Inl e \<Rightarrow> Inl e
                          | Inr out1 \<Rightarrow> output_seek (output_write out1 data) current_pos))))"

text \<open>A box writer maps the source, the box and the current output offset to the bytes of
  the box and the placeholders recorded in it.\<close>

type_synonym BoxWriter = "bytes \<Rightarrow> box \<Rightarrow> int \<Rightarrow> error + (bytes \<times> placeholder list)"

text \<open>\<^verbatim>\<open>ParsedFile.boxes_have_changed\<close>.\<close>

definition boxes_have_changed :: "parsed_file \<Rightarrow> bool" where
  "boxes_have_changed self = list_ex needs_rewrite (boxes self)"

text \<open>
  The first loop of \<^verbatim>\<open>AVIFWriter.write\<close>, over \<^verbatim>\<open>self.parsed_file.boxes\<close>. The state is the
  output, \<^verbatim>\<open>mdat_boxes\<close> and \<^verbatim>\<open>placeholder_offsets\<close>. A box that needs rewriting and has no
  writer fails the \<^verbatim>\<open>isinstance(box.body, bytes)\<close> assertion, the body being a dictionary.
\<close>

fun write_boxes ::
  "(string \<rightharpoonup> BoxWriter) \<Rightarrow> bytes \<Rightarrow> box list \<Rightarrow> out_file \<Rightarrow> (box \<times> int) list \<Rightarrow> placeholder list
     \<Rightarrow> (error + (out_file \<times> (box \<times> int) list \<times> placeholder list)) option" where
  "write_boxes box_writer_map src [] out mdat_boxes placeholder_offsets =
     Some (Inr (out, mdat_boxes, placeholder_offsets))"
| "write_boxes box_writer_map src (b # rest) out mdat_boxes placeholder_offsets =
     (let mdat_boxes' = (if type b = ''mdat'' then mdat_boxes @ [(b, out_pos out)] else mdat_boxes) in
      if \<not> needs_rewrite b then
        (case copy_data_to_destination src out (start b) (size_b b) of
           None \<Rightarrow> None
         | Some out' \<Rightarrow> write_boxes box_writer_map src rest out' mdat_boxes' placeholder_offsets)
      else
        (case box_writer_map (type b) of
           None \<Rightarrow> Some (Inl AssertionError)
         | Some writer \<Rightarrow>
             (case writer src b (out_pos out) of
                Inl e \<Rightarrow> Some (Inl e)
              | Inr (box_data, cur_offsets) \<Rightarrow>
                  write_boxes box_writer_map src rest (output_write out box_data) mdat_boxes'
                    (placeholder_offsets @ cur_offsets))))"

text \<open>
  The inner loop of the second part: the search for the \<^verbatim>\<open>mdat\<close> the offsets belong to.
  \<^verbatim>\<open>mdat_box, new_offset\<close> start as \<^verbatim>\<open>None, None\<close>, and the loop variables keep the values
  of the last iteration when no \<^verbatim>\<open>break\<close> is taken.
\<close>

fun find_mdat :: "int list \<Rightarrow> (box \<times> int) list \<Rightarrow> (box \<times> int) option \<Rightarrow> error + (box \<times> int) option" where
  "find_mdat offsets [] cur = Inr cur"
| "find_mdat offsets ((mdat_box, new_offset) # rest) cur =
     (let offsets_in_mdat = map (\<lambda>off. start mdat_box \<le> off \<and> off < end_b mdat_box) offsets in
      if list_all id offsets_in_mdat then Inr (Some (mdat_box, new_offset))
      else if \<not> \<not> list_ex id offsets_in_mdat then Inl AssertionError
      else find_mdat offsets rest (Some (mdat_box, new_offset)))"

text \<open>One iteration of the second loop: \<^verbatim>\<open>delta = new_offset - mdat_box.start\<close> fails on
  \<^verbatim>\<open>None\<close> when there is no \<^verbatim>\<open>mdat\<close> at all.\<close>

definition patch_placeholder :: "(box \<times> int) list \<Rightarrow> out_file \<Rightarrow> placeholder \<Rightarrow> error + out_file" where
  "patch_placeholder mdat_boxes out p =
     (case find_mdat (get_offset_list p) mdat_boxes None of
        Inl e \<Rightarrow> Inl e
      | Inr None \<Rightarrow> Inl AttributeError
      | Inr (Some (mdat_box, new_offset)) \<Rightarrow> write_delta p out (new_offset - start mdat_box))"

fun patch_placeholders :: "(box \<times> int) list \<Rightarrow> out_file \<Rightarrow> placeholder list \<Rightarrow> error + out_file" where
  "patch_placeholders mdat_boxes out [] = Inr out"
| "patch_placeholders mdat_boxes out (p # rest) =
     (case patch_placeholder mdat_boxes out p of
        Inl e \<Rightarrow> Inl e
      | Inr out' \<Rightarrow> patch_placeholders mdat_boxes out' rest)"

text \<open>
  \<^verbatim>\<open>AVIFWriter.write\<close> on an empty output. \<^verbatim>\<open>self.box_writer_map\<close> is a parameter. The
  marking of the boxes that hold offsets is passed as an argument, a function from the
  top-level boxes to the marked ones; \<open>ParsedFile_mark_offset_boxes_for_rewrite\<close> below is
  that of the program.
\<close>

definition AVIFWriter_write ::
  "(string \<rightharpoonup> BoxWriter) \<Rightarrow> (box list \<Rightarrow> box list) \<Rightarrow> parsed_file \<Rightarrow> (error + out_file) option" where
  "AVIFWriter_write box_writer_map mark_offset_boxes_for_rewrite self =
     (let bs = (if boxes_have_changed self then mark_offset_boxes_for_rewrite (boxes self)
                else boxes self)
      in case write_boxes box_writer_map (reader self) bs \<lparr>content = [], out_pos = 0\<rparr> [] [] of
           None \<Rightarrow> None
         | Some (Inl e) \<Rightarrow> Some (Inl e)
         | Some (Inr (out, mdat_boxes, placeholder_offsets)) \<Rightarrow>
             Some (patch_placeholders mdat_boxes out placeholder_offsets))"

text \<open>Parsing a source and writing it, both as one run.\<close>

definition parse_then_write ::
  "(string \<times> recipe) list \<Rightarrow> (string \<times> recipe) list \<Rightarrow> (string \<rightharpoonup> BoxWriter) \<Rightarrow> (box list \<Rightarrow> box list)
     \<Rightarrow> bytes \<Rightarrow> (error + out_file) option" where
  "parse_then_write MAP_META_BOX MAP_MOOV_BOX box_writer_map mark_offset_boxes_for_rewrite src =
     (case ParsedFile_init MAP_META_BOX MAP_MOOV_BOX src of
        Inl e \<Rightarrow> Some (Inl e)
      | Inr self \<Rightarrow> AVIFWriter_write box_writer_map mark_offset_boxes_for_rewrite self)"

section \<open>Marking the boxes that hold offsets\<close>

text \<open>The index of the first box of an array that has the type.\<close>

fun first_index :: "string \<Rightarrow> box list \<Rightarrow> nat option" where
  "first_index t [] = None"
| "first_index t (b # bs) = (if type b = t then Some 0 else map_option Suc (first_index t bs))"

text \<open>
  The box that \<^verbatim>\<open>get_box_from_hierarchy\<close> returns for the hierarchy \<open>h # hs\<close>, as the
  indices that lead to it from \<^verbatim>\<open>self.boxes\<close>. An array comes with the indices of the box
  it belongs to; \<^verbatim>\<open>box_array = None\<close> stands for \<^verbatim>\<open>self.boxes\<close>, also in the recursive
  call on a box whose \<^verbatim>\<open>sub_boxes\<close> is \<^verbatim>\<open>None\<close>.
\<close>

fun locate :: "box list \<Rightarrow> string \<Rightarrow> string list \<Rightarrow> (nat list \<times> box list) option \<Rightarrow> nat list option" where
  "locate self_boxes h hs box_array =
     (case (case box_array of None \<Rightarrow> ([], self_boxes) | Some a \<Rightarrow> a) of
        (path, arr) \<Rightarrow>
          (case first_index h arr of
             None \<Rightarrow> None
           | Some i \<Rightarrow>
               (case hs of
                  [] \<Rightarrow> Some (path @ [i])
                | h' # hs' \<Rightarrow>
                    locate self_boxes h' hs'
                      (case sub_boxes (arr ! i) of
                         None \<Rightarrow> None
                       | Some subs \<Rightarrow> Some (path @ [i], subs)))))"

text \<open>
  \<^verbatim>\<open>Box.mark_for_rewrite\<close> on the box at the end of a path. The \<^verbatim>\<open>parent\<close> chain of that
  box consists of the boxes along the path, and every one of them is marked.
\<close>

fun mark_path :: "nat list \<Rightarrow> box list \<Rightarrow> box list" where
  "mark_path [] bs = bs"
| "mark_path (i # path) bs =
     (if i < length bs then
        bs[i := mark_for_rewrite
                  (case sub_boxes (bs ! i) of
                     None \<Rightarrow> bs ! i
                   | Some subs \<Rightarrow> set_sub_boxes (bs ! i) (Some (mark_path path subs)))]
      else bs)"

text \<open>
  \<^verbatim>\<open>ParsedFile.mark_offset_boxes_for_rewrite\<close> on \<^verbatim>\<open>self.boxes\<close>: the \<^verbatim>\<open>iloc\<close> of the
  \<^verbatim>\<open>meta\<close> box, and for the child at index \<open>k\<close> of the \<^verbatim>\<open>moov\<close> box at index \<open>j\<close>, when it
  is a \<^verbatim>\<open>trak\<close>, its \<^verbatim>\<open>stco\<close>.
\<close>

definition mark_trak :: "nat \<Rightarrow> box list \<Rightarrow> nat \<Rightarrow> box list" where
  "mark_trak j self_boxes k =
     (case sub_boxes (self_boxes ! j) of
        None \<Rightarrow> self_boxes
      | Some traks \<Rightarrow>
          if type (traks ! k) \<noteq> ''trak'' then self_boxes
          else (case locate self_boxes ''mdia'' [''minf'', ''stbl'', ''stco'']
                       (case sub_boxes (traks ! k) of
                          None \<Rightarrow> None
                        | Some subs \<Rightarrow> Some ([j, k], subs)) of
                  None \<Rightarrow> self_boxes
                | Some path \<Rightarrow> mark_path path self_boxes))"

definition ParsedFile_mark_offset_boxes_for_rewrite :: "box list \<Rightarrow> box list" where
  "ParsedFile_mark_offset_boxes_for_rewrite self_boxes =
     (let marked = (case locate self_boxes ''meta'' [''iloc''] None of
                      None \<Rightarrow> self_boxes
                    | Some path \<Rightarrow> mark_path path self_boxes)
      in case first_index ''moov'' marked of
           None \<Rightarrow> marked
         | Some j \<Rightarrow>
             (case sub_boxes (marked ! j) of
                None \<Rightarrow> marked
              | Some traks \<Rightarrow> foldl (mark_trak j) marked [0..<length traks]))"

text \<open>The box at the end of a path of indices, and the array of its children; the empty
  path stands for \<^verbatim>\<open>self.boxes\<close>.\<close>

fun children_at :: "box list \<Rightarrow> nat list \<Rightarrow> box list option" where
  "children_at bs [] = Some bs"
| "children_at bs (i # path) =
     (if i < length bs then
        (case sub_boxes (bs ! i) of None \<Rightarrow> None | Some subs \<Rightarrow> children_at subs path)
      else None)"

definition box_at :: "box list \<Rightarrow> nat list \<Rightarrow> box option" where
  "box_at bs path =
     (if path = [] then None
      else case children_at bs (butlast path) of
             None \<Rightarrow> None
           | Some arr \<Rightarrow> if last path < length arr then Some (arr ! last path) else None)"

section \<open>The AV1 Sequence Header OBU\<close>
































section \<open>Sources and outputs used in the results\<close>

definition ftyp_bytes :: bytes where
  "ftyp_bytes = [CHR 0x00, CHR 0x00, CHR 0x00, CHR 0x10] @ ''ftypavif'' @ [CHR 0x00, CHR 0x00, CHR 0x00, CHR 0x00]"

definition open_mdat_file :: bytes where
  "open_mdat_file = ftyp_bytes @ [CHR 0x00, CHR 0x00, CHR 0x00, CHR 0x00] @ ''mdat'' @ [CHR 0x0A, CHR 0x0B, CHR 0x0C, CHR 0x0D]"

definition ftyp_box :: box where
  "ftyp_box = Box ''ftyp'' 16 0 16 None Map.empty
     [''major'' \<mapsto> StrV ''avif'', ''version'' \<mapsto> IntV 0, ''compatible'' \<mapsto> ListV []] False"

definition open_mdat_box :: box where
  "open_mdat_box = Box ''mdat'' 28 16 44 None Map.empty Map.empty False"

definition infe_bytes :: bytes where
  "infe_bytes = [CHR 0x00, CHR 0x00, CHR 0x00, CHR 0x0C] @ ''infe'' @ [CHR 0x02, CHR 0x00, CHR 0x00, CHR 0x00]"

definition moved_mdat :: box where
  "moved_mdat = Box ''mdat'' 100 100 200 None Map.empty Map.empty False"

definition stray_placeholder :: placeholder where
  "stray_placeholder = PlaceholderFileOffset 4 4 50 []"

definition out_before_patch :: out_file where
  "out_before_patch = \<lparr>content = [CHR 0x01, CHR 0x02, CHR 0x03, CHR 0x04, CHR 0x00, CHR 0x00, CHR 0x00, CHR 0x32],
                  out_pos = 8\<rparr>"



text \<open>An output that is written at its end.\<close>

definition at_end :: "out_file \<Rightarrow> bool" where
  "at_end out = (out_pos out = int (length (content out)))"

text \<open>Boxes that follow one another from position \<open>p\<close> on, none marked for rewriting, and
  the position where they end.\<close>

fun tiles :: "int \<Rightarrow> box list \<Rightarrow> bool" where
  "tiles p [] = True"
| "tiles p (b # bs) =
     (start b = p \<and> 8 \<le> size_b b \<and> end_b b = start b + size_b b \<and> \<not> needs_rewrite b \<and> tiles (end_b b) bs)"

definition tiles_end :: "int \<Rightarrow> box list \<Rightarrow> int" where
  "tiles_end p bs = (if bs = [] then p else end_b (last bs))"

text \<open>
  A source of 48 bytes: a \<^verbatim>\<open>meta\<close> box with an \<^verbatim>\<open>iloc\<close> child, an \<^verbatim>\<open>mdat\<close>, a \<^verbatim>\<open>free\<close> box
  and a second \<^verbatim>\<open>mdat\<close>. The \<^verbatim>\<open>meta\<close> and the \<^verbatim>\<open>free\<close> box are marked for rewriting.
\<close>

definition two_mdat_src :: bytes where
  "two_mdat_src =
     [CHR 0x00, CHR 0x00, CHR 0x00, CHR 0x10] @ ''meta'' @ [CHR 0x00, CHR 0x00, CHR 0x00, CHR 0x08] @ ''iloc''
     @ [CHR 0x00, CHR 0x00, CHR 0x00, CHR 0x0C] @ ''mdat'' @ [CHR 0x01, CHR 0x02, CHR 0x03, CHR 0x04]
     @ [CHR 0x00, CHR 0x00, CHR 0x00, CHR 0x08] @ ''free''
     @ [CHR 0x00, CHR 0x00, CHR 0x00, CHR 0x0C] @ ''mdat'' @ [CHR 0x05, CHR 0x06, CHR 0x07, CHR 0x08]"

definition first_mdat :: box where
  "first_mdat = Box ''mdat'' 12 16 28 None Map.empty Map.empty False"

definition second_mdat :: box where
  "second_mdat = Box ''mdat'' 12 36 48 None Map.empty Map.empty False"

definition two_mdat_file :: parsed_file where
  "two_mdat_file =
     \<lparr>reader = two_mdat_src,
      boxes = [Box ''meta'' 16 0 16 (Some [Box ''iloc'' 8 8 16 None Map.empty Map.empty False])
                 Map.empty Map.empty True,
               first_mdat,
               Box ''free'' 8 28 36 None Map.empty Map.empty True,
               second_mdat],
      ipma = None, ipco = None\<rparr>"



text \<open>Box writers that shrink the \<^verbatim>\<open>meta\<close> box from 16 to 12 bytes, with a base offset 2 and
  one extent offset 16: the extent lies at 18, in the first \<^verbatim>\<open>mdat\<close>, which moves by -4.\<close>

definition shrinking_writers :: "string \<rightharpoonup> BoxWriter" where
  "shrinking_writers =
     [''meta'' \<mapsto> (\<lambda>src b current_offset.
          Inr ([CHR 0x00, CHR 0x00, CHR 0x00, CHR 0x0C] @ ''meta'' @ [CHR 0x00, CHR 0x00, CHR 0x00, CHR 0x02],
               [PlaceholderFileOffset (current_offset + 8) 4 2
                  [PlaceholderFileOffset (current_offset + 12) 4 16 []]])),
      ''free'' \<mapsto> (\<lambda>src b current_offset.
          Inr ([CHR 0x00, CHR 0x00, CHR 0x00, CHR 0x08] @ ''free'', []))]"

section \<open>Notions for the offset patching\<close>

text \<open>Top-level boxes as the parser lays them out: every box starts at \<open>p\<close>, where the box
  before it ends, and holds at least its header.\<close>

fun laid_out :: "int \<Rightarrow> box list \<Rightarrow> bool" where
  "laid_out p [] = True"
| "laid_out p (b # bs) =
     (start b = p \<and> 8 \<le> size_b b \<and> end_b b = start b + size_b b \<and> laid_out (end_b b) bs)"







section \<open>Results for the item property graph\<close>

text \<open>
  C10. The guard of \<^verbatim>\<open>get_item_properties_for_item\<close> accepts
  \<^verbatim>\<open>property_index == len(self.ipco.sub_boxes) + 1\<close>, so the lookup that follows it is
  reached with an index one past the end and raises \<^verbatim>\<open>IndexError\<close>: with one property
  in the container and an association to property 2, the assertion passes and the access fails.
\<close>

theorem get_item_properties_guard_off_by_one:
  "get_item_properties_for_item (pf_one_property [(1, [(2, True)])]) 1 = Inl IndexError"
  by (simp add: get_item_properties_for_item_def pf_one_property_def get_associations_def
      dict_get_def py_index_def norm_index_def)

subsection \<open>\<^verbatim>\<open>add_property_association\<close>\<close>

lemma get_set_associations [simp]:
  "get_associations (mark_for_rewrite (set_associations b a)) = Inr a"
  "get_associations (set_associations b a) = Inr a"
  by (simp_all add: get_associations_def mark_for_rewrite_def set_associations_def set_body_def)

lemma dict_get_update [simp]:
  "dict_get (AList.update k v al) k' d = (if k' = k then v else dict_get al k' d)"
  by (simp add: dict_get_def update_conv')

lemma find_association_absent:
  "valid_associations n cur \<Longrightarrow> List.find (\<lambda>(p, e). p = idx + 1) cur = None
     \<Longrightarrow> find_association (int n) idx cur k = Inr (-1, False)"
  by (induction cur arbitrary: k) (auto simp: valid_associations_def)

lemma find_association_present:
  "valid_associations n cur \<Longrightarrow> List.find (\<lambda>(p, e). p = idx + 1) cur = Some (q, e)
     \<Longrightarrow> \<exists>j. find_association (int n) idx cur k = Inr (k + int j, e) \<and> j < length cur
            \<and> cur ! j = (idx + 1, e) \<and> (\<forall>i<j. fst (cur ! i) \<noteq> idx + 1)"
proof (induction cur arbitrary: k)
  case Nil
  then show ?case by simp
next
  case (Cons a cur)
  obtain p e' where a: "a = (p, e')" by (cases a)
  show ?case
  proof (cases "p = idx + 1")
    case True
    with Cons.prems a show ?thesis
      by (intro exI[of _ 0]) (auto simp: valid_associations_def)
  next
    case False
    with Cons.prems a have v: "valid_associations n cur" and f: "List.find (\<lambda>(p, e). p = idx + 1) cur = Some (q, e)"
      and r: "1 \<le> p" "p \<le> int n"
      by (auto simp: valid_associations_def)
    from Cons.IH[OF v f, of "k + 1"] obtain j where
      j: "find_association (int n) idx cur (k + 1) = Inr (k + 1 + int j, e)" "j < length cur"
         "cur ! j = (idx + 1, e)" "\<forall>i<j. fst (cur ! i) \<noteq> idx + 1"
      by blast
    show ?thesis
    proof (intro exI[of _ "Suc j"] conjI)
      show "find_association (int n) idx (a # cur) k = Inr (k + int (Suc j), e)"
        using a False r j(1) by (simp add: algebra_simps)
      show "Suc j < length (a # cur)" using j(2) by simp
      show "(a # cur) ! Suc j = (idx + 1, e)" using j(3) by simp
      show "\<forall>i<Suc j. fst ((a # cur) ! i) \<noteq> idx + 1"
        using j(4) a False by (auto simp: nth_Cons split: nat.splits)
    qed
  qed
qed


lemma add_absent:
  assumes "ipma self = Some ipma_box" "ipco self = Some ipco_box" "sub_boxes ipco_box = Some subs"
      and "get_associations ipma_box = Inr assoc"
      and "valid_associations (length subs) (dict_get assoc item_id [])"
      and "List.find (\<lambda>(p, e). p = ipco_index + 1) (dict_get assoc item_id []) = None"
  shows "\<exists>b' a'. add_property_association self item_id ipco_index essential position
              = Inr (self\<lparr>ipma := Some b'\<rparr>)
          \<and> get_associations b' = Inr a'
          \<and> dict_get a' item_id [] =
              py_insert (case position of None \<Rightarrow> int (length (dict_get assoc item_id [])) | Some p \<Rightarrow> p)
                (ipco_index + 1, essential) (dict_get assoc item_id [])
          \<and> (\<forall>other. other \<noteq> item_id \<longrightarrow> dict_get a' other [] = dict_get assoc other [])"
proof -
  have f: "find_association (int (length subs)) ipco_index (dict_get assoc item_id []) 0 = Inr (-1, False)"
    using find_association_absent[OF assms(5,6)] .
  let ?cur = "dict_get assoc item_id []"
  let ?assoc1 = "if map_of assoc item_id = None then AList.update item_id [] assoc else assoc"
  let ?pos = "case position of None \<Rightarrow> int (length ?cur) | Some p \<Rightarrow> p"
  let ?assoc2 = "AList.update item_id (py_insert ?pos (ipco_index + 1, essential) ?cur) ?assoc1"
  have c1: "dict_get ?assoc1 item_id [] = ?cur"
    by (simp add: dict_get_def update_conv')
  have "add_property_association self item_id ipco_index essential position
          = Inr (self\<lparr>ipma := Some (mark_for_rewrite (set_associations ipma_box ?assoc2))\<rparr>)"
  proof (cases "map_of assoc item_id = None")
    case True
    then have "?cur = []" by (simp add: dict_get_def)
    then show ?thesis
      unfolding add_property_association_def
      using assms(1-4) f True by (simp add: Let_def cong: option.case_cong)
  next
    case False
    then show ?thesis
      unfolding add_property_association_def
      using assms(1-4) f False by (auto simp add: Let_def cong: option.case_cong)
  qed
  moreover have "dict_get ?assoc2 item_id [] = py_insert ?pos (ipco_index + 1, essential) ?cur"
    by simp
  moreover have "\<forall>other. other \<noteq> item_id \<longrightarrow> dict_get ?assoc2 other [] = dict_get assoc other []"
    by simp
  ultimately show ?thesis
    by (intro exI[of _ "mark_for_rewrite (set_associations ipma_box ?assoc2)"] exI[of _ ?assoc2])
       (simp del: dict_get_update)
qed

lemma add_present_noop:
  assumes "ipma self = Some ipma_box" "ipco self = Some ipco_box" "sub_boxes ipco_box = Some subs"
      and "get_associations ipma_box = Inr assoc"
      and "valid_associations (length subs) (dict_get assoc item_id [])"
      and "List.find (\<lambda>(p, e). p = ipco_index + 1) (dict_get assoc item_id []) = Some (q, e)"
      and "e \<or> \<not> essential"
  shows "add_property_association self item_id ipco_index essential position = Inr self"
proof -
  from find_association_present[OF assms(5,6), of 0] obtain j where
    "find_association (int (length subs)) ipco_index (dict_get assoc item_id []) 0 = Inr (int j, e)"
    by auto
  then show ?thesis
    unfolding add_property_association_def
    using assms(1-4,7) by auto
qed

lemma add_present_upgrade:
  assumes "ipma self = Some ipma_box" "ipco self = Some ipco_box" "sub_boxes ipco_box = Some subs"
      and "get_associations ipma_box = Inr assoc"
      and "valid_associations (length subs) (dict_get assoc item_id [])"
      and "List.find (\<lambda>(p, e). p = ipco_index + 1) (dict_get assoc item_id []) = Some (q, False)"
  shows "\<exists>b' a' j. add_property_association self item_id ipco_index True position
              = Inr (self\<lparr>ipma := Some b'\<rparr>)
          \<and> get_associations b' = Inr a'
          \<and> j < length (dict_get assoc item_id [])
          \<and> dict_get assoc item_id [] ! j = (ipco_index + 1, False)
          \<and> (\<forall>i<j. fst (dict_get assoc item_id [] ! i) \<noteq> ipco_index + 1)
          \<and> dict_get a' item_id [] = (dict_get assoc item_id [])[j := (ipco_index + 1, True)]
          \<and> (\<forall>other. other \<noteq> item_id \<longrightarrow> dict_get a' other [] = dict_get assoc other [])"
proof -
  from find_association_present[OF assms(5,6), of 0] obtain j where
    j: "find_association (int (length subs)) ipco_index (dict_get assoc item_id []) 0 = Inr (int j, False)"
       "j < length (dict_get assoc item_id [])"
       "dict_get assoc item_id [] ! j = (ipco_index + 1, False)"
       "\<forall>i<j. fst (dict_get assoc item_id [] ! i) \<noteq> ipco_index + 1"
    by auto
  have s: "py_setitem (dict_get assoc item_id []) (int j) (ipco_index + 1, True)
             = Inr ((dict_get assoc item_id [])[j := (ipco_index + 1, True)])"
    using j(2) by (simp add: py_setitem_def norm_index_def)
  have "add_property_association self item_id ipco_index True position
          = Inr (self\<lparr>ipma := Some (mark_for_rewrite (set_associations ipma_box
               (AList.update item_id ((dict_get assoc item_id [])[j := (ipco_index + 1, True)]) assoc)))\<rparr>)"
    unfolding add_property_association_def
    using assms(1-4) j(1) s by simp
  then show ?thesis
    using j(2,3,4) by (intro exI conjI) (assumption | simp)+
qed


lemma graph_okE:
  assumes "graph_ok self item_id"
  obtains ipma_box ipco_box subs assoc where
    "ipma self = Some ipma_box" "ipco self = Some ipco_box" "sub_boxes ipco_box = Some subs"
    "get_associations ipma_box = Inr assoc"
    "valid_associations (length subs) (dict_get assoc item_id [])"
    "associations_of self item_id = dict_get assoc item_id []"
    "property_count self = int (length subs)"
  using assms
  by (auto simp: graph_ok_def associations_of_def property_count_def split: option.splits sum.splits)

lemma py_insert_in_range:
  "0 \<le> p \<Longrightarrow> p \<le> int (length xs) \<Longrightarrow> py_insert p v xs = take (nat p) xs @ [v] @ drop (nat p) xs"
  by (simp add: py_insert_def Let_def min_def)

lemma py_insert_end: "py_insert (int (length xs)) v xs = xs @ [v]"
  by (simp add: py_insert_def Let_def)

lemma filter_py_insert:
  "filter P xs = [] \<Longrightarrow> P v \<Longrightarrow> filter P (py_insert p v xs) = [v]"
proof -
  assume a: "filter P xs = []" and v: "P v"
  have "\<And>k. filter P (take k xs) = [] \<and> filter P (drop k xs) = []"
    using a by (metis append_take_drop_id filter_append append_is_Nil_conv)
  then show ?thesis using v by (simp add: py_insert_def Let_def)
qed

lemma find_None_filter: "List.find P xs = None \<longleftrightarrow> filter P xs = []"
  by (induction xs) auto

lemma filter_upgrade:
  assumes "filter P xs = [x]" "j < length xs" "xs ! j = x" "P y"
  shows "filter P (xs[j := y]) = [y]"
proof -
  have xs: "xs = take j xs @ x # drop (Suc j) xs"
    using assms(2,3) by (metis id_take_nth_drop)
  have px: "P x" using assms(1) by (metis filter_eq_Cons_iff)
  have "filter P (take j xs) @ [x] @ filter P (drop (Suc j) xs) = [x]"
    using assms(1) px by (subst (asm) xs) simp
  then have e: "filter P (take j xs) = []" "filter P (drop (Suc j) xs) = []"
    by (simp_all add: append_eq_Cons_conv)
  have "xs[j := y] = take j xs @ y # drop (Suc j) xs"
    using assms(2) by (simp add: upd_conv_take_nth_drop)
  then show ?thesis using e assms(4) by simp
qed


lemma add_twice:
  assumes "graph_ok self item_id"
      and "List.find (\<lambda>(p, e). p = ipco_index + 1) (associations_of self item_id) = None"
      and "0 \<le> ipco_index" "ipco_index < property_count self"
  shows "\<exists>s1 s2. add_property_association self item_id ipco_index False position = Inr s1
           \<and> add_property_association s1 item_id ipco_index True position' = Inr s2
           \<and> filter (\<lambda>(p, e). p = ipco_index + 1) (associations_of s2 item_id) = [(ipco_index + 1, True)]"
proof -
  let ?P = "\<lambda>(p, e). p = ipco_index + (1::int)"
  from assms(1) obtain ipma_box ipco_box subs assoc where g:
    "ipma self = Some ipma_box" "ipco self = Some ipco_box" "sub_boxes ipco_box = Some subs"
    "get_associations ipma_box = Inr assoc"
    "valid_associations (length subs) (dict_get assoc item_id [])"
    "associations_of self item_id = dict_get assoc item_id []"
    "property_count self = int (length subs)"
    by (rule graph_okE)
  let ?cur = "dict_get assoc item_id []"
  have none: "List.find ?P ?cur = None" using assms(2) g(6) by simp
  from add_absent[OF g(1-5) none, of False position] obtain b1 a1 where s1:
    "add_property_association self item_id ipco_index False position = Inr (self\<lparr>ipma := Some b1\<rparr>)"
    "get_associations b1 = Inr a1"
    "dict_get a1 item_id [] =
       py_insert (case position of None \<Rightarrow> int (length ?cur) | Some p \<Rightarrow> p) (ipco_index + 1, False) ?cur"
    by blast
  let ?s1 = "self\<lparr>ipma := Some b1\<rparr>"
  let ?cur1 = "dict_get a1 item_id []"
  have f1: "filter ?P ?cur1 = [(ipco_index + 1, False)]"
    unfolding s1(3) using none by (intro filter_py_insert) (simp_all add: find_None_filter)
  have v1: "valid_associations (length subs) ?cur1"
    unfolding s1(3) using g(5) assms(3,4) g(7)
    by (auto simp: valid_associations_def py_insert_def Let_def list_all_iff dest: in_set_takeD in_set_dropD)
  have find1: "List.find ?P ?cur1 = Some (ipco_index + 1, False)"
  proof (cases "List.find ?P ?cur1")
    case None
    then show ?thesis using f1 by (simp add: find_None_filter)
  next
    case (Some a)
    then obtain i where i: "i < length ?cur1" "?P (?cur1 ! i)" "a = ?cur1 ! i"
      by (auto simp: find_Some_iff)
    then have "a \<in> set (filter ?P ?cur1)" by simp
    then show ?thesis using Some f1 by simp
  qed
  have g1: "ipma ?s1 = Some b1" "ipco ?s1 = Some ipco_box" using g(2) by simp_all
  from add_present_upgrade[OF g1 g(3) s1(2) v1 find1, of position'] obtain b2 a2 j where s2:
    "add_property_association ?s1 item_id ipco_index True position' = Inr (?s1\<lparr>ipma := Some b2\<rparr>)"
    "get_associations b2 = Inr a2" "j < length ?cur1" "?cur1 ! j = (ipco_index + 1, False)"
    "dict_get a2 item_id [] = ?cur1[j := (ipco_index + 1, True)]"
    by blast
  have "filter ?P (dict_get a2 item_id []) = [(ipco_index + 1, True)]"
    unfolding s2(5) by (rule filter_upgrade[OF f1 s2(3) s2(4)]) simp
  moreover have "associations_of (?s1\<lparr>ipma := Some b2\<rparr>) item_id = dict_get a2 item_id []"
    using s2(2) by (simp add: associations_of_def)
  ultimately show ?thesis using s1(1) s2(1) by (intro exI conjI) (assumption | simp)+
qed

text \<open>
  C7. Let the item's association list hold only indices in range (the condition
  \<^verbatim>\<open>add_property_association\<close> asserts). If the (item, property) pair is already there and
  either the call is not essential or the existing pair is essential, the call returns the
  state unchanged. If the existing pair is non-essential and the call is essential, the first
  pair for that property is replaced in place by the essential one and nothing else changes.
  If the pair is not there, it is inserted: appended when no position is given, at index \<open>p\<close>
  when a position \<open>0 \<le> p \<le> len\<close> is given (\<^verbatim>\<open>list.insert\<close> in general). Hence after
  associating a property that the item did not have, first non-essential and then essential,
  the item has exactly one association for that property and it is essential.
\<close>

theorem add_property_association_spec:
  assumes "graph_ok self item_id"
  shows
    "(\<forall>q e. List.find (\<lambda>(p, e). p = ipco_index + 1) (associations_of self item_id) = Some (q, e)
         \<and> (e \<or> \<not> essential)
        \<longrightarrow> add_property_association self item_id ipco_index essential position = Inr self)
   \<and> (\<forall>q. List.find (\<lambda>(p, e). p = ipco_index + 1) (associations_of self item_id) = Some (q, False)
        \<longrightarrow> (\<exists>self' j. add_property_association self item_id ipco_index True position = Inr self'
              \<and> j < length (associations_of self item_id)
              \<and> associations_of self item_id ! j = (ipco_index + 1, False)
              \<and> (\<forall>i<j. fst (associations_of self item_id ! i) \<noteq> ipco_index + 1)
              \<and> associations_of self' item_id = (associations_of self item_id)[j := (ipco_index + 1, True)]
              \<and> (\<forall>other. other \<noteq> item_id \<longrightarrow> associations_of self' other = associations_of self other)))
   \<and> (List.find (\<lambda>(p, e). p = ipco_index + 1) (associations_of self item_id) = None
        \<longrightarrow> (\<exists>self'. add_property_association self item_id ipco_index essential position = Inr self'
              \<and> associations_of self' item_id =
                  (case position of
                     None \<Rightarrow> associations_of self item_id @ [(ipco_index + 1, essential)]
                   | Some p \<Rightarrow> py_insert p (ipco_index + 1, essential) (associations_of self item_id))
              \<and> (\<forall>p. position = Some p \<and> 0 \<le> p \<and> p \<le> int (length (associations_of self item_id))
                    \<longrightarrow> associations_of self' item_id =
                          take (nat p) (associations_of self item_id) @ [(ipco_index + 1, essential)]
                            @ drop (nat p) (associations_of self item_id))
              \<and> (\<forall>other. other \<noteq> item_id \<longrightarrow> associations_of self' other = associations_of self other)))
   \<and> (List.find (\<lambda>(p, e). p = ipco_index + 1) (associations_of self item_id) = None
        \<and> 0 \<le> ipco_index \<and> ipco_index < property_count self
        \<longrightarrow> (\<exists>s1 s2. add_property_association self item_id ipco_index False position = Inr s1
              \<and> add_property_association s1 item_id ipco_index True position' = Inr s2
              \<and> filter (\<lambda>(p, e). p = ipco_index + 1) (associations_of s2 item_id) = [(ipco_index + 1, True)]))"
proof -
  let ?P = "\<lambda>(p, e). p = ipco_index + (1::int)"
  from assms obtain ipma_box ipco_box subs assoc where g:
    "ipma self = Some ipma_box" "ipco self = Some ipco_box" "sub_boxes ipco_box = Some subs"
    "get_associations ipma_box = Inr assoc"
    "valid_associations (length subs) (dict_get assoc item_id [])"
    "associations_of self item_id = dict_get assoc item_id []"
    "property_count self = int (length subs)"
    by (rule graph_okE)
  have other: "associations_of self other = dict_get assoc other []" for other
    using g(1,4) by (simp add: associations_of_def)
  have A: "add_property_association self item_id ipco_index essential position = Inr self"
    if "List.find ?P (associations_of self item_id) = Some (q, e)" "e \<or> \<not> essential" for q e
    using add_present_noop[OF g(1-5) _ that(2)] that(1) g(6) by simp
  have B: "\<exists>self' j. add_property_association self item_id ipco_index True position = Inr self'
              \<and> j < length (associations_of self item_id)
              \<and> associations_of self item_id ! j = (ipco_index + 1, False)
              \<and> (\<forall>i<j. fst (associations_of self item_id ! i) \<noteq> ipco_index + 1)
              \<and> associations_of self' item_id = (associations_of self item_id)[j := (ipco_index + 1, True)]
              \<and> (\<forall>other. other \<noteq> item_id \<longrightarrow> associations_of self' other = associations_of self other)"
    if "List.find ?P (associations_of self item_id) = Some (q, False)" for q
  proof -
    from that g(6) have "List.find ?P (dict_get assoc item_id []) = Some (q, False)" by simp
    from add_present_upgrade[OF g(1-5) this, of position] obtain b' a' j where r:
      "add_property_association self item_id ipco_index True position = Inr (self\<lparr>ipma := Some b'\<rparr>)"
      "get_associations b' = Inr a'" "j < length (dict_get assoc item_id [])"
      "dict_get assoc item_id [] ! j = (ipco_index + 1, False)"
      "\<forall>i<j. fst (dict_get assoc item_id [] ! i) \<noteq> ipco_index + 1"
      "dict_get a' item_id [] = (dict_get assoc item_id [])[j := (ipco_index + 1, True)]"
      "\<forall>other. other \<noteq> item_id \<longrightarrow> dict_get a' other [] = dict_get assoc other []"
      by blast
    have n: "associations_of (self\<lparr>ipma := Some b'\<rparr>) k = dict_get a' k []" for k
      using r(2) by (simp add: associations_of_def)
    show ?thesis
      using r by (intro exI[of _ "self\<lparr>ipma := Some b'\<rparr>"] exI[of _ j]) (simp add: n g(6) other)
  qed
  have C: "\<exists>self'. add_property_association self item_id ipco_index essential position = Inr self'
              \<and> associations_of self' item_id =
                  (case position of
                     None \<Rightarrow> associations_of self item_id @ [(ipco_index + 1, essential)]
                   | Some p \<Rightarrow> py_insert p (ipco_index + 1, essential) (associations_of self item_id))
              \<and> (\<forall>p. position = Some p \<and> 0 \<le> p \<and> p \<le> int (length (associations_of self item_id))
                    \<longrightarrow> associations_of self' item_id =
                          take (nat p) (associations_of self item_id) @ [(ipco_index + 1, essential)]
                            @ drop (nat p) (associations_of self item_id))
              \<and> (\<forall>other. other \<noteq> item_id \<longrightarrow> associations_of self' other = associations_of self other)"
    if "List.find ?P (associations_of self item_id) = None"
  proof -
    from that g(6) have "List.find ?P (dict_get assoc item_id []) = None" by simp
    from add_absent[OF g(1-5) this, of essential position] obtain b' a' where r:
      "add_property_association self item_id ipco_index essential position = Inr (self\<lparr>ipma := Some b'\<rparr>)"
      "get_associations b' = Inr a'"
      "dict_get a' item_id [] =
         py_insert (case position of None \<Rightarrow> int (length (dict_get assoc item_id [])) | Some p \<Rightarrow> p)
           (ipco_index + 1, essential) (dict_get assoc item_id [])"
      "\<forall>other. other \<noteq> item_id \<longrightarrow> dict_get a' other [] = dict_get assoc other []"
      by blast
    have n: "associations_of (self\<lparr>ipma := Some b'\<rparr>) k = dict_get a' k []" for k
      using r(2) by (simp add: associations_of_def)
    show ?thesis
      using r(1,4)
      by (intro exI[of _ "self\<lparr>ipma := Some b'\<rparr>"])
         (auto simp: n g(6) other r(3) py_insert_end py_insert_in_range split: option.splits)
  qed
  have D: "\<exists>s1 s2. add_property_association self item_id ipco_index False position = Inr s1
              \<and> add_property_association s1 item_id ipco_index True position' = Inr s2
              \<and> filter ?P (associations_of s2 item_id) = [(ipco_index + 1, True)]"
    if "List.find ?P (associations_of self item_id) = None" "0 \<le> ipco_index" "ipco_index < property_count self"
    using add_twice[OF assms that] .
  show ?thesis using A B C D by blast
qed


theorem add_property_association_spec_witness:
  "graph_ok (pf_one_property []) 1
   \<and> (\<exists>s1 s2. add_property_association (pf_one_property []) 1 0 False None = Inr s1
         \<and> add_property_association s1 1 0 True None = Inr s2
         \<and> filter (\<lambda>(p, e). p = 0 + 1) (associations_of s2 1) = [(0 + 1, True)])"
proof -
  have g: "graph_ok (pf_one_property []) 1"
    by (simp add: graph_ok_def pf_one_property_def get_associations_def valid_associations_def dict_get_def)
  have a: "associations_of (pf_one_property []) 1 = []"
    by (simp add: associations_of_def pf_one_property_def get_associations_def dict_get_def)
  have c: "property_count (pf_one_property []) = 1"
    by (simp add: property_count_def pf_one_property_def)
  show ?thesis
    using add_property_association_spec[OF g, of 0 False None None] g by (simp add: a c)
qed

subsection \<open>\<^verbatim>\<open>_add_property_if_needed\<close>\<close>




















subsection \<open>\<^verbatim>\<open>drop_unused_item_properties\<close>\<close>

lemma occ_simps [simp]:
  "occ [] k = 0"
  "occ ((p, e) # rest) k = (if p = int k + 1 then 1 else 0) + occ rest k"
  by (simp_all add: occ_def)

lemma count_props_counts:
  "valid_associations n associations \<Longrightarrow> length cnt = n \<Longrightarrow>
     \<exists>cnt'. count_props associations cnt = Inr cnt' \<and> length cnt' = n
        \<and> (\<forall>k<n. cnt' ! k = cnt ! k + int (occ associations k))"
proof (induction associations arbitrary: cnt)
  case Nil
  then show ?case by simp
next
  case (Cons a rest)
  obtain p e where a: "a = (p, e)" by (cases a)
  from Cons.prems a have r: "1 \<le> p" "p \<le> int n" and v: "valid_associations n rest"
    by (auto simp: valid_associations_def)
  let ?j = "nat (p - 1)"
  have j: "?j < n" using r by auto
  have ni: "norm_index (length cnt) (p - 1) = Some ?j"
    using r Cons.prems(2) by (auto simp: norm_index_def)
  let ?cnt1 = "cnt[?j := cnt ! ?j + 1]"
  have l1: "length ?cnt1 = n" using Cons.prems(2) by simp
  from Cons.IH[OF v l1] obtain cnt' where c:
    "count_props rest ?cnt1 = Inr cnt'" "length cnt' = n"
    "\<forall>k<n. cnt' ! k = ?cnt1 ! k + int (occ rest k)"
    by blast
  have step: "count_props (a # rest) cnt = Inr cnt'"
    using a ni c(1) by (simp add: py_index_def py_setitem_def)
  have "cnt' ! k = cnt ! k + int (occ (a # rest) k)" if "k < n" for k
  proof -
    have "p = int k + 1 \<longleftrightarrow> k = ?j" using r by auto
    then show ?thesis
      using c(3) that a Cons.prems(2) by (auto simp: nth_list_update)
  qed
  then show ?case using step c(2) by blast
qed

lemma count_all_counts:
  "list_all (\<lambda>(item_id, associations). valid_associations n associations) assoc \<Longrightarrow> length cnt = n \<Longrightarrow>
     \<exists>cnt'. count_all assoc cnt = Inr cnt' \<and> length cnt' = n
        \<and> (\<forall>k<n. cnt' ! k = cnt ! k + int (occ_all assoc k))"
proof (induction assoc arbitrary: cnt)
  case Nil
  then show ?case by (simp add: occ_all_def)
next
  case (Cons a rest)
  obtain item_id associations where a: "a = (item_id, associations)" by (cases a)
  from Cons.prems a have v: "valid_associations n associations"
    and vr: "list_all (\<lambda>(item_id, associations). valid_associations n associations) rest"
    by auto
  from count_props_counts[OF v Cons.prems(2)] obtain cnt1 where c1:
    "count_props associations cnt = Inr cnt1" "length cnt1 = n"
    "\<forall>k<n. cnt1 ! k = cnt ! k + int (occ associations k)"
    by blast
  from Cons.IH[OF vr c1(2)] obtain cnt' where c:
    "count_all rest cnt1 = Inr cnt'" "length cnt' = n"
    "\<forall>k<n. cnt' ! k = cnt1 ! k + int (occ_all rest k)"
    by blast
  show ?case
    using a c1 c by (intro exI[of _ cnt']) (simp add: occ_all_def)
qed

lemma occ_pos: "0 < occ associations k \<longleftrightarrow> list_ex (\<lambda>(p, e). p = int k + 1) associations"
  by (induction associations) (auto simp: occ_def)

lemma occ_all_pos: "0 < occ_all assoc k \<longleftrightarrow> is_used assoc k"
  by (induction assoc) (auto simp: occ_all_def is_used_def occ_pos)

lemma accumulate_from_nth:
  "j < length xs \<Longrightarrow> accumulate_from acc xs ! j = acc + sum_list (take (Suc j) xs)"
proof (induction xs arbitrary: acc j)
  case Nil
  then show ?case by simp
next
  case (Cons x xs)
  then show ?case by (cases j) (simp_all add: algebra_simps)
qed

lemma accumulate_from_length [simp]: "length (accumulate_from acc xs) = length xs"
  by (induction xs arbitrary: acc) simp_all

lemma drop_flags_prefix:
  "j \<le> length cnt \<Longrightarrow>
     sum_list (take j (map (\<lambda>v. if v > 0 then 0 else 1) cnt))
       = int (length (filter (\<lambda>k. \<not> cnt ! k > (0::int)) [0..<j]))"
proof (induction j)
  case 0
  then show ?case by simp
next
  case (Suc j)
  then show ?case by (simp add: take_Suc_conv_app_nth)
qed


lemma remap_associations_map:
  "valid_associations n associations \<Longrightarrow> length dec = n \<Longrightarrow>
     remap_associations dec associations = Inr (map (\<lambda>(p, e). (p - dec ! nat (p - 1), e)) associations)"
proof (induction associations)
  case Nil
  then show ?case by simp
next
  case (Cons a rest)
  obtain p e where a: "a = (p, e)" by (cases a)
  from Cons.prems a have r: "1 \<le> p" "p \<le> int n" and v: "valid_associations n rest"
    by (auto simp: valid_associations_def)
  have ni: "norm_index (length dec) (p - 1) = Some (nat (p - 1))"
    using r Cons.prems(2) by (auto simp: norm_index_def)
  show ?case using a ni Cons.IH[OF v Cons.prems(2)] by (simp add: py_index_def)
qed

lemma remap_all_map:
  "list_all (\<lambda>(item_id, associations). valid_associations n associations) assoc \<Longrightarrow> length dec = n \<Longrightarrow>
     remap_all dec assoc
       = Inr (map (\<lambda>(item_id, associations).
                     (item_id, map (\<lambda>(p, e). (p - dec ! nat (p - 1), e)) associations)) assoc)"
proof (induction assoc)
  case Nil
  then show ?case by simp
next
  case (Cons a rest)
  obtain item_id associations where a: "a = (item_id, associations)" by (cases a)
  from Cons.prems a have v: "valid_associations n associations"
    and vr: "list_all (\<lambda>(item_id, associations). valid_associations n associations) rest"
    by auto
  show ?case
    using a remap_associations_map[OF v Cons.prems(2)] Cons.IH[OF vr Cons.prems(2)] by simp
qed

lemma zip_upt_nth: "zip [0..<length xs] xs = map (\<lambda>i. (i, xs ! i)) [0..<length xs]"
  by (rule nth_equalityI) simp_all

lemma keep_used_filter:
  "keep_used flags subs = map (\<lambda>k. subs ! k) (filter (\<lambda>k. flags ! k = 0) [0..<length subs])"
  unfolding keep_used_def zip_upt_nth
  by (simp add: filter_map o_def)

lemma upt_split_le: "j \<le> n \<Longrightarrow> [0..<n] = [0..<j] @ [j..<n]"
  using upt_add_eq_append[of 0 j "n - j"] by simp

lemma upt_split_at: "k < n \<Longrightarrow> [0..<n] = [0..<k] @ k # [Suc k..<n]"
  using upt_split_le[of k n] by (simp add: upt_conv_Cons)

lemma used_position:
  assumes "k < n" "P k"
  shows "filter P [0..<n] ! length (filter P [0..<k]) = k"
    and "length (filter P [0..<k]) < length (filter P [0..<n])"
    and "length (filter P [0..<k]) + length (filter (\<lambda>i. \<not> P i) [0..<k]) = k"
proof -
  have split: "[0..<n] = [0..<k] @ k # [Suc k..<n]"
    using assms(1) by (rule upt_split_at)
  have f: "filter P [0..<n] = filter P [0..<k] @ k # filter P [Suc k..<n]"
    using assms(2) by (subst split) simp
  show "filter P [0..<n] ! length (filter P [0..<k]) = k"
    unfolding f by (simp add: nth_append)
  show "length (filter P [0..<k]) < length (filter P [0..<n])"
    unfolding f by simp
  show "length (filter P [0..<k]) + length (filter (\<lambda>i. \<not> P i) [0..<k]) = k"
    using sum_length_filter_compl[of P "[0..<k]"] by simp
qed


lemma graph_all_okE:
  assumes "graph_all_ok self"
  obtains ipma_box ipco_box subs assoc where
    "ipma self = Some ipma_box" "ipco self = Some ipco_box" "sub_boxes ipco_box = Some subs"
    "get_associations ipma_box = Inr assoc"
    "list_all (\<lambda>(item_id, associations). valid_associations (length subs) associations) assoc"
    "all_associations self = assoc" "properties_of self = subs"
  using assms
  by (auto simp: graph_all_ok_def all_associations_def properties_of_def split: option.splits sum.splits)

lemma used_in_range:
  assumes "list_all (\<lambda>(item_id, associations). valid_associations n associations) assoc"
      and "(item_id, associations) \<in> set assoc" "(p, e) \<in> set associations"
  shows "1 \<le> p" "p \<le> int n" "nat (p - 1) < n" "is_used assoc (nat (p - 1))"
proof -
  have v: "valid_associations n associations"
    using assms(1,2) by (auto simp: list_all_iff)
  then show r: "1 \<le> p" "p \<le> int n"
    using assms(3) by (auto simp: valid_associations_def list_all_iff)
  then show "nat (p - 1) < n" by auto
  have "p = int (nat (p - 1)) + 1" using r by simp
  then show "is_used assoc (nat (p - 1))"
    unfolding is_used_def list_ex_iff using assms(2,3) by blast
qed

lemma drop_unused_result:
  assumes "graph_all_ok self"
  shows "\<exists>self'. drop_unused_item_properties self = Inr self'
           \<and> properties_of self' =
               map (\<lambda>k. properties_of self ! k)
                 (filter (is_used (all_associations self)) [0..<length (properties_of self)])
           \<and> all_associations self' =
               map (\<lambda>(item_id, associations).
                      (item_id, map (\<lambda>(p, e). (p - int (removed_before (all_associations self) p), e)) associations))
                 (all_associations self)"
proof -
  from assms obtain ipma_box ipco_box subs assoc where g:
    "ipma self = Some ipma_box" "ipco self = Some ipco_box" "sub_boxes ipco_box = Some subs"
    "get_associations ipma_box = Inr assoc"
    "list_all (\<lambda>(item_id, associations). valid_associations (length subs) associations) assoc"
    "all_associations self = assoc" "properties_of self = subs"
    by (rule graph_all_okE)
  let ?n = "length subs"
  from count_all_counts[OF g(5), of "replicate ?n 0"] obtain cnt where c:
    "count_all assoc (replicate ?n 0) = Inr cnt" "length cnt = ?n"
    "\<forall>k<?n. cnt ! k = int (occ_all assoc k)"
    by auto
  have used: "cnt ! k > 0 \<longleftrightarrow> is_used assoc k" if "k < ?n" for k
    using c(3) that occ_all_pos[of assoc k] by simp
  let ?remap = "\<lambda>(item_id, associations :: (int \<times> bool) list).
                  (item_id, map (\<lambda>(p, e). (p - int (removed_before assoc p), e)) associations)"
  show ?thesis
  proof (cases "count_list cnt 0 = 0")
    case True
    then have nz: "0 \<notin> set cnt" by (simp add: count_list_0_iff)
    have all_used: "is_used assoc k" if "k < ?n" for k
    proof -
      have "cnt ! k \<noteq> 0" using nz that c(2) by (metis nth_mem)
      moreover have "cnt ! k \<ge> 0" using c(3) that by simp
      ultimately show ?thesis using used[OF that] by simp
    qed
    have r: "drop_unused_item_properties self = Inr self"
      using g(1-4) c(1) True by (simp add: drop_unused_item_properties_def)
    have "filter (is_used assoc) [0..<?n] = [0..<?n]"
      using all_used by (simp add: filter_id_conv)
    then have p: "map (\<lambda>k. subs ! k) (filter (is_used assoc) [0..<?n]) = subs"
      by (simp add: map_nth)
    have "?remap x = x" if "x \<in> set assoc" for x
    proof -
      obtain item_id associations where x: "x = (item_id, associations)" by (cases x)
      have "(case y of (p, e) \<Rightarrow> (p - int (removed_before assoc p), e)) = y" if y: "y \<in> set associations" for y
      proof -
        obtain q e where yq: "y = (q, e)" by (cases y)
        from used_in_range[OF g(5) \<open>x \<in> set assoc\<close>[unfolded x] y[unfolded yq]]
        have "nat (q - 1) < ?n" by simp
        then have "filter (\<lambda>k. \<not> is_used assoc k) [0..<nat (q - 1)] = []"
          using all_used by (auto simp: filter_empty_conv)
        then show ?thesis using yq by (simp add: removed_before_def)
      qed
      then have "map (\<lambda>(p, e). (p - int (removed_before assoc p), e)) associations = associations"
        by (simp add: map_idI)
      then show ?thesis using x by simp
    qed
    then have a: "map ?remap assoc = assoc" by (simp add: map_idI)
    show ?thesis
      using r p a g(6,7) by (intro exI[of _ self]) simp
  next
    case False
    let ?flags = "map (\<lambda>v. if v > 0 then 0 else 1) cnt :: int list"
    let ?dec = "accumulate ?flags"
    have ld: "length ?dec = ?n" using c(2) by (simp add: accumulate_def)
    have dec: "?dec ! nat (p - 1) = int (removed_before assoc p)"
      if "(item_id, associations) \<in> set assoc" "(p, e) \<in> set associations" for item_id associations p e
    proof -
      let ?j = "nat (p - 1)"
      from used_in_range[OF g(5) that] have j: "?j < ?n" and u: "is_used assoc ?j" by simp_all
      have fj: "?flags ! ?j = 0" using used[OF j] u j c(2) by simp
      have "?dec ! ?j = sum_list (take (Suc ?j) ?flags)"
        using j c(2) by (simp add: accumulate_def accumulate_from_nth)
      also have "\<dots> = sum_list (take ?j ?flags) + ?flags ! ?j"
        using j c(2) by (simp add: take_Suc_conv_app_nth del: nth_map)
      also have "\<dots> = int (length (filter (\<lambda>k. \<not> cnt ! k > 0) [0..<?j]))"
        using drop_flags_prefix[of ?j cnt] j c(2) fj by simp
      also have "filter (\<lambda>k. \<not> cnt ! k > 0) [0..<?j] = filter (\<lambda>k. \<not> is_used assoc k) [0..<?j]"
        using used j by (intro filter_cong) auto
      finally show ?thesis by (simp add: removed_before_def)
    qed
    have "map (\<lambda>(item_id, associations). (item_id, map (\<lambda>(p, e). (p - ?dec ! nat (p - 1), e)) associations)) assoc
            = map ?remap assoc"
      using dec by (intro map_cong refl) (auto intro!: map_cong)
    then have rm: "remap_all ?dec assoc = Inr (map ?remap assoc)"
      using remap_all_map[OF g(5) ld] by simp
    have "filter (\<lambda>k. ?flags ! k = 0) [0..<?n] = filter (is_used assoc) [0..<?n]"
      using used c(2) by (intro filter_cong) auto
    then have ku: "keep_used ?flags subs = map (\<lambda>k. subs ! k) (filter (is_used assoc) [0..<?n])"
      by (simp add: keep_used_filter)
    let ?self' = "self\<lparr>ipma := Some (set_associations ipma_box (map ?remap assoc)),
                       ipco := Some (mark_for_rewrite (set_sub_boxes ipco_box (Some (keep_used ?flags subs))))\<rparr>"
    have r: "drop_unused_item_properties self = Inr ?self'"
      using g(1-4) c(1) False rm by (simp add: drop_unused_item_properties_def Let_def)
    have p: "properties_of ?self' = keep_used ?flags subs"
      by (simp add: properties_of_def mark_for_rewrite_def set_sub_boxes_def)
    have a: "all_associations ?self' = map ?remap assoc"
      by (simp add: all_associations_def)
    show ?thesis
      using r p a ku g(6,7) by (intro exI[of _ ?self']) simp
  qed
qed


lemma surviving_refers_to_same_box:
  assumes "list_all (\<lambda>(item_id, associations). valid_associations (length subs) associations) assoc"
      and "(item_id, associations) \<in> set assoc" "(p, e) \<in> set associations"
  shows "1 \<le> p - int (removed_before assoc p)"
    and "p - int (removed_before assoc p) \<le> int (length (filter (is_used assoc) [0..<length subs]))"
    and "map (\<lambda>k. subs ! k) (filter (is_used assoc) [0..<length subs])
           ! nat (p - int (removed_before assoc p) - 1) = subs ! nat (p - 1)"
proof -
  let ?j = "nat (p - 1)"
  let ?m = "length (filter (is_used assoc) [0..<?j])"
  from used_in_range[OF assms] have r: "1 \<le> p" and j: "?j < length subs" and u: "is_used assoc ?j"
    by simp_all
  note up = used_position[of ?j "length subs" "is_used assoc", OF j u]
  have m: "int ?m = p - 1 - int (removed_before assoc p)"
    using up(3) r by (simp add: removed_before_def)
  show "1 \<le> p - int (removed_before assoc p)" using m by linarith
  show "p - int (removed_before assoc p) \<le> int (length (filter (is_used assoc) [0..<length subs]))"
    using m up(2) by linarith
  have "nat (p - int (removed_before assoc p) - 1) = ?m" using m by linarith
  then show "map (\<lambda>k. subs ! k) (filter (is_used assoc) [0..<length subs])
           ! nat (p - int (removed_before assoc p) - 1) = subs ! nat (p - 1)"
    using up(1,2) by simp
qed

lemma single_unused_prefix:
  assumes "filter Q [0..<n] = [k0]" "j \<le> n"
  shows "length (filter Q [0..<j]) = (if k0 < j then 1 else 0)"
proof -
  have "k0 \<in> set (filter Q [0..<n])" using assms(1) by simp
  then have k0: "Q k0" "k0 < n" by simp_all
  have only: "k = k0" if "k < n" "Q k" for k
  proof -
    have "k \<in> set (filter Q [0..<n])" using that by simp
    then show ?thesis using assms(1) by simp
  qed
  have split: "[0..<n] = [0..<j] @ [j..<n]"
    using assms(2) by (rule upt_split_le)
  have "length (filter Q [0..<j]) + length (filter Q [j..<n]) = 1"
    using arg_cong[OF assms(1), of length] by (subst (asm) split) simp
  then have "length (filter Q [0..<j]) \<le> 1" by linarith
  moreover have "filter Q [0..<j] \<noteq> []" if "k0 < j"
    using that k0(1) by (auto simp: filter_empty_conv)
  moreover have "filter Q [0..<j] = []" if "\<not> k0 < j"
  proof -
    have "\<not> Q x" if x: "x < j" for x
      using only[of x] x \<open>\<not> k0 < j\<close> assms(2) by auto
    then show ?thesis by (auto simp: filter_empty_conv)
  qed
  ultimately show ?thesis
    by (cases "k0 < j") (auto simp: le_Suc_eq)
qed

lemma single_unused_rest:
  assumes "filter (\<lambda>k. \<not> P k) [0..<length xs] = [k0]"
  shows "map (\<lambda>k. xs ! k) (filter P [0..<length xs]) = take k0 xs @ drop (Suc k0) xs"
proof -
  let ?n = "length xs"
  have "k0 \<in> set (filter (\<lambda>k. \<not> P k) [0..<?n])" using assms by simp
  then have k0: "\<not> P k0" "k0 < ?n" by simp_all
  have only: "k = k0" if "k < ?n" "\<not> P k" for k
  proof -
    have "k \<in> set (filter (\<lambda>k. \<not> P k) [0..<?n])" using that by simp
    then show ?thesis using assms by simp
  qed
  have "P k \<longleftrightarrow> k \<noteq> k0" if "k \<in> set [0..<?n]" for k
    using only[of k] k0(1) that by (cases "k = k0") auto
  then have e1: "filter P [0..<?n] = filter (\<lambda>k. k \<noteq> k0) [0..<?n]"
    by (rule filter_cong[OF refl])
  have e2: "filter (\<lambda>k. k \<noteq> k0) ([0..<k0] @ k0 # [Suc k0..<?n]) = [0..<k0] @ [Suc k0..<?n]"
    by (simp add: filter_id_conv)
  have f: "filter P [0..<?n] = [0..<k0] @ [Suc k0..<?n]"
    using e1 e2 upt_split_at[OF k0(2)] by simp
  have t: "map (\<lambda>k. xs ! k) [0..<k0] = take k0 xs"
    using k0(2) by (intro nth_equalityI) simp_all
  have d: "map (\<lambda>k. xs ! k) [Suc k0..<?n] = drop (Suc k0) xs"
    using k0(2) by (intro nth_equalityI) simp_all
  show ?thesis unfolding f using t d by simp
qed


text \<open>
  When every association holds a property index in range,
  \<^verbatim>\<open>drop_unused_item_properties\<close> returns, the shared sequence afterwards consists of exactly
  the properties that have an association, in their order, and every association's
  \<^verbatim>\<open>property_index\<close> is lowered by the number of removed properties that preceded it, so
  that it still refers to the same box. In particular, when one property is without
  association, that property is removed and the indices above it are lowered by one, for
  every item.
\<close>

lemma drop_unused_in_range_compacts:
  assumes "graph_all_ok self"
  shows
    "\<exists>self'. drop_unused_item_properties self = Inr self'
       \<and> properties_of self' =
           map (\<lambda>k. properties_of self ! k)
             (filter (is_used (all_associations self)) [0..<length (properties_of self)])
       \<and> all_associations self' =
           map (\<lambda>(item_id, associations).
                  (item_id, map (\<lambda>(p, e). (p - int (removed_before (all_associations self) p), e)) associations))
             (all_associations self)
       \<and> (\<forall>(item_id, associations) \<in> set (all_associations self). \<forall>(p, e) \<in> set associations.
             1 \<le> p - int (removed_before (all_associations self) p)
           \<and> p - int (removed_before (all_associations self) p) \<le> int (length (properties_of self'))
           \<and> properties_of self' ! nat (p - int (removed_before (all_associations self) p) - 1)
                 = properties_of self ! nat (p - 1))
       \<and> (\<forall>k0. filter (\<lambda>k. \<not> is_used (all_associations self) k) [0..<length (properties_of self)] = [k0]
             \<longrightarrow> properties_of self' = take k0 (properties_of self) @ drop (Suc k0) (properties_of self)
               \<and> all_associations self' =
                   map (\<lambda>(item_id, associations).
                          (item_id, map (\<lambda>(p, e). (if int k0 + 1 < p then p - 1 else p, e)) associations))
                     (all_associations self))"
proof -
  from assms obtain ipma_box ipco_box subs assoc where g:
    "ipma self = Some ipma_box" "ipco self = Some ipco_box" "sub_boxes ipco_box = Some subs"
    "get_associations ipma_box = Inr assoc"
    "list_all (\<lambda>(item_id, associations). valid_associations (length subs) associations) assoc"
    "all_associations self = assoc" "properties_of self = subs"
    by (rule graph_all_okE)
  from drop_unused_result[OF assms] obtain self' where r:
    "drop_unused_item_properties self = Inr self'"
    "properties_of self' = map (\<lambda>k. subs ! k) (filter (is_used assoc) [0..<length subs])"
    "all_associations self' =
       map (\<lambda>(item_id, associations).
              (item_id, map (\<lambda>(p, e). (p - int (removed_before assoc p), e)) associations)) assoc"
    unfolding g(6,7) by blast
  have same: "\<forall>(item_id, associations) \<in> set assoc. \<forall>(p, e) \<in> set associations.
             1 \<le> p - int (removed_before assoc p)
           \<and> p - int (removed_before assoc p) \<le> int (length (properties_of self'))
           \<and> properties_of self' ! nat (p - int (removed_before assoc p) - 1) = subs ! nat (p - 1)"
    unfolding r(2) using surviving_refers_to_same_box[OF g(5)] by auto
  have single: "properties_of self' = take k0 subs @ drop (Suc k0) subs
               \<and> all_associations self' =
                   map (\<lambda>(item_id, associations).
                          (item_id, map (\<lambda>(p, e). (if int k0 + 1 < p then p - 1 else p, e)) associations)) assoc"
    if one: "filter (\<lambda>k. \<not> is_used assoc k) [0..<length subs] = [k0]" for k0
  proof
    show "properties_of self' = take k0 subs @ drop (Suc k0) subs"
      unfolding r(2) using one by (rule single_unused_rest)
    have "p - int (removed_before assoc p) = (if int k0 + 1 < p then p - 1 else p)"
      if "(item_id, associations) \<in> set assoc" "(p, e) \<in> set associations" for item_id associations p e
    proof -
      from used_in_range[OF g(5) that] have j: "nat (p - 1) < length subs" and p1: "1 \<le> p" by simp_all
      have "removed_before assoc p = (if k0 < nat (p - 1) then 1 else 0)"
        unfolding removed_before_def using single_unused_prefix[OF one, of "nat (p - 1)"] j by simp
      then show ?thesis using p1 by auto
    qed
    then have "map (\<lambda>(item_id, associations).
              (item_id, map (\<lambda>(p, e). (p - int (removed_before assoc p), e)) associations)) assoc
         = map (\<lambda>(item_id, associations).
              (item_id, map (\<lambda>(p, e). (if int k0 + 1 < p then p - 1 else p, e)) associations)) assoc"
      by (intro map_cong refl) (auto intro!: map_cong)
    then show "all_associations self' =
                   map (\<lambda>(item_id, associations).
                          (item_id, map (\<lambda>(p, e). (if int k0 + 1 < p then p - 1 else p, e)) associations)) assoc"
      using r(3) by simp
  qed
  show ?thesis
    unfolding g(6,7) using r same single by (intro exI[of _ self']) blast
qed

lemma drop_unused_in_range_compacts_example:
  "graph_all_ok pf_three_properties
   \<and> (\<exists>self'. drop_unused_item_properties pf_three_properties = Inr self'
         \<and> properties_of self' = [ispe_box, Box ''colr'' 24 136 160 None Map.empty Map.empty False]
         \<and> all_associations self' = [(1, [(1, True), (2, False)]), (2, [(2, True)])])"
proof -
  have g: "graph_all_ok pf_three_properties"
    by (simp add: graph_all_ok_def pf_three_properties_def get_associations_def valid_associations_def)
  have a: "all_associations pf_three_properties = [(1, [(1, True), (3, False)]), (2, [(3, True)])]"
    by (simp add: all_associations_def pf_three_properties_def get_associations_def)
  have p: "properties_of pf_three_properties =
             [ispe_box, Box ''pixi'' 16 120 136 None full_header pixi_body False,
              Box ''colr'' 24 136 160 None Map.empty Map.empty False]"
    by (simp add: properties_of_def pf_three_properties_def)
  have u: "filter (\<lambda>k. \<not> is_used (all_associations pf_three_properties) k)
             [0..<length (properties_of pf_three_properties)] = [1]"
    by (simp add: a p is_used_def upt_rec)
  from drop_unused_in_range_compacts[OF g] obtain self' where r:
    "drop_unused_item_properties pf_three_properties = Inr self'"
    "\<forall>k0. filter (\<lambda>k. \<not> is_used (all_associations pf_three_properties) k)
             [0..<length (properties_of pf_three_properties)] = [k0]
       \<longrightarrow> properties_of self' = take k0 (properties_of pf_three_properties)
                                  @ drop (Suc k0) (properties_of pf_three_properties)
         \<and> all_associations self' =
             map (\<lambda>(item_id, associations).
                    (item_id, map (\<lambda>(p, e). (if int k0 + 1 < p then p - 1 else p, e)) associations))
               (all_associations pf_three_properties)"
    by blast
  from r(2)[rule_format, OF u]
  have "properties_of self' = [ispe_box, Box ''colr'' 24 136 160 None Map.empty Map.empty False]
      \<and> all_associations self' = [(1, [(1, True), (2, False)]), (2, [(2, True)])]"
    by (simp add: a p)
  then show ?thesis using g r(1) by blast
qed


text \<open>
  C8. The function does not test the range of the property indices, which
  \<^verbatim>\<open>add_property_association\<close> and \<^verbatim>\<open>remove_property_associations\<close> assert. With the
  properties \<^verbatim>\<open>ispe\<close>, \<^verbatim>\<open>pixi\<close>, \<^verbatim>\<open>colr\<close> and the associations \<^verbatim>\<open>(0, False)\<close>,
  \<^verbatim>\<open>(1, True)\<close> of item 1, the index 0 is counted through \<^verbatim>\<open>prop_assoc_count[-1]\<close> for the
  last property: the function returns normally, \<^verbatim>\<open>colr\<close>, which no association refers to,
  stays in the shared sequence, and the index 0 becomes -1 although no property precedes
  it.
\<close>

theorem drop_unused_item_properties_index_zero:
  "drop_unused_item_properties pf_index_zero
     = Inr \<lparr>reader = [], boxes = [],
            ipma = Some (Box ''ipma'' 30 200 230 None full_header
                     [''associations'' \<mapsto> AssociationsV [(1, [(-1, False), (1, True)])]] False),
            ipco = Some (Box ''ipco'' 68 92 160
                     (Some [ispe_box, Box ''colr'' 24 136 160 None Map.empty Map.empty False])
                     Map.empty Map.empty True)\<rparr>"
  by (simp add: drop_unused_item_properties_def pf_index_zero_def get_associations_def py_index_def
      py_setitem_def norm_index_def accumulate_def keep_used_def set_associations_def set_body_def
      set_sub_boxes_def mark_for_rewrite_def upt_rec Let_def)

section \<open>Results for the parser\<close>

declare parse_box_sequence.simps [simp del] recipe_parse.simps [simp del]

lemmas reader_defs = from_reader_def read_integer_of_size_def read_data_def
      read_string_def be_uint_def decode_data_to_string_def rstrip_nul_def byte_in_def Box_init_def

lemma open_mdat_box_sel:
  "type open_mdat_box = ''mdat''" "start open_mdat_box = 16" "size_b open_mdat_box = 28"
  "end_b open_mdat_box = 44" "sub_boxes open_mdat_box = None" "header open_mdat_box = Map.empty"
  "body open_mdat_box = Map.empty" "needs_rewrite open_mdat_box = False"
  by (simp_all add: open_mdat_box_def)

lemma ftyp_box_sel:
  "type ftyp_box = ''ftyp''" "start ftyp_box = 0" "size_b ftyp_box = 16"
  "end_b ftyp_box = 16" "sub_boxes ftyp_box = None" "needs_rewrite ftyp_box = False"
  by (simp_all add: ftyp_box_def)

lemma from_reader_open_mdat:
  "from_reader open_mdat_file 16 28 = Inr (open_mdat_box, 24)"
  by (simp add: reader_defs open_mdat_file_def ftyp_bytes_def open_mdat_box_def)

lemma from_reader_ftyp:
  "from_reader open_mdat_file 0 28 = Inr (Box ''ftyp'' 16 0 16 None Map.empty Map.empty False, 8)"
  by (simp add: reader_defs open_mdat_file_def ftyp_bytes_def)

lemma parse_ftyp:
  "parse_ftyp_box open_mdat_file 8 (Box ''ftyp'' 16 0 16 None Map.empty Map.empty False)
     = Inr ([''major'' \<mapsto> StrV ''avif'', ''version'' \<mapsto> IntV 0, ''compatible'' \<mapsto> ListV []], None, 16)"
  by (simp add: parse_ftyp_box_def reader_defs open_mdat_file_def ftyp_bytes_def str_value_def)

lemma find_recipe_top:
  "find_recipe (MAP_TOP_LEVEL m1 m2) ''ftyp'' = BoxRecipe ''File Type Box'' False None (Some parse_ftyp_box)"
  "find_recipe (MAP_TOP_LEVEL m1 m2) ''mdat'' = BoxRecipe ''Unknown'' False None None"
  by (simp_all add: find_recipe_def MAP_TOP_LEVEL_def)

lemma parse_open_mdat_file:
  "parse_box_sequence open_mdat_file 0 28 (MAP_TOP_LEVEL m1 m2) None [] = Inr ([ftyp_box, open_mdat_box], 44)"
proof -
  have s3: "parse_box_sequence open_mdat_file 44 28 (MAP_TOP_LEVEL m1 m2) None [ftyp_box, open_mdat_box]
              = Inr ([ftyp_box, open_mdat_box], 44)"
    by (subst parse_box_sequence.simps) simp
  have r2: "recipe_parse (BoxRecipe ''Unknown'' False None None) open_mdat_file 24 open_mdat_box
              = Inr (Map.empty, None, Map.empty, 44)"
    by (subst recipe_parse.simps) (simp add: open_mdat_box_sel)
  have b2: "set_body (set_sub_boxes (set_header open_mdat_box Map.empty) None) Map.empty = open_mdat_box"
    by (simp add: open_mdat_box_def set_body_def set_sub_boxes_def set_header_def)
  have s2: "parse_box_sequence open_mdat_file 16 28 (MAP_TOP_LEVEL m1 m2) None [ftyp_box]
              = Inr ([ftyp_box, open_mdat_box], 44)"
    by (subst parse_box_sequence.simps)
       (simp add: from_reader_open_mdat find_recipe_top r2 open_mdat_box_sel b2 s3)
  have r1: "recipe_parse (BoxRecipe ''File Type Box'' False None (Some parse_ftyp_box)) open_mdat_file 8
              (Box ''ftyp'' 16 0 16 None Map.empty Map.empty False)
              = Inr (Map.empty, None, [''major'' \<mapsto> StrV ''avif'', ''version'' \<mapsto> IntV 0, ''compatible'' \<mapsto> ListV []], 16)"
    by (subst recipe_parse.simps) (simp add: set_header_def parse_ftyp)
  have b1: "set_body (set_sub_boxes (set_header (Box ''ftyp'' 16 0 16 None Map.empty Map.empty False) Map.empty) None)
              [''major'' \<mapsto> StrV ''avif'', ''version'' \<mapsto> IntV 0, ''compatible'' \<mapsto> ListV []] = ftyp_box"
    by (simp add: ftyp_box_def set_body_def set_sub_boxes_def set_header_def)
  show ?thesis
    by (subst parse_box_sequence.simps)
       (simp add: from_reader_ftyp find_recipe_top r1 b1 s2)
qed

lemma init_open_mdat_file:
  "ParsedFile_init m1 m2 open_mdat_file
     = Inr \<lparr>reader = open_mdat_file, boxes = [ftyp_box, open_mdat_box], ipma = None, ipco = None\<rparr>"
proof -
  have l: "int (length open_mdat_file) = 28" by (simp add: open_mdat_file_def ftyp_bytes_def)
  have a: "read_integer_of_size open_mdat_file 0 28 4 True = Inr (16, 4)"
    by (simp add: reader_defs open_mdat_file_def ftyp_bytes_def)
  have b: "read_string open_mdat_file 4 28 4 = Inr (Some ''ftyp'', 8)"
    by (simp add: reader_defs open_mdat_file_def ftyp_bytes_def)
  show ?thesis
    unfolding ParsedFile_init_def l Let_def
    by (simp add: a b parse_open_mdat_file ftyp_box_sel open_mdat_box_sel)
qed


lemma copy_loop_at_end:
  assumes "int (length src) \<le> pos" "0 < count"
  shows "copy_loop src pos count out = None"
proof (rule ccontr)
  assume "copy_loop src pos count out \<noteq> None"
  then obtain y where y: "copy_loop src pos count out = Some y" by auto
  have "\<not> (int (length src) \<le> pos \<and> 0 < count)"
  proof (rule copy_loop.raw_induct[where P = "\<lambda>src pos count out y. \<not> (int (length src) \<le> pos \<and> 0 < count)", OF _ y])
    fix f :: "bytes \<Rightarrow> int \<Rightarrow> int \<Rightarrow> out_file \<Rightarrow> out_file option"
      and src :: bytes and pos count :: int and out y :: out_file
    assume IH: "\<And>src pos count out y. f src pos count out = Some y \<Longrightarrow> \<not> (int (length src) \<le> pos \<and> 0 < count)"
      and step: "(if 0 < count
          then let data = take (nat (min 32768 count)) (drop (nat pos) src)
               in f src (pos + int (length data)) (count - int (length data)) (output_write out data)
          else Some out) = Some y"
    show "\<not> (int (length src) \<le> pos \<and> 0 < count)"
    proof
      assume c: "int (length src) \<le> pos \<and> 0 < count"
      then have "length src \<le> nat pos" by linarith
      then have "drop (nat pos) src = []" by simp
      with step c have "f src pos count (output_write out []) = Some y" by simp
      from IH[OF this] c show False by simp
    qed
  qed
  then show False using assms by simp
qed

text \<open>A box that claims more bytes than the source holds from its start on: the copy never ends.\<close>

lemma copy_loop_overrun:
  assumes "0 \<le> pos" "pos \<le> int (length src)" "int (length src) < pos + count" "int (length src) - pos \<le> 32768"
  shows "copy_loop src pos count out = None"
proof (cases "pos = int (length src)")
  case True
  then show ?thesis using assms by (intro copy_loop_at_end) simp_all
next
  case False
  let ?data = "take (nat (min 32768 count)) (drop (nat pos) src)"
  have "length ?data = length src - nat pos" using assms by (simp add: min_def) linarith
  then have l: "int (length ?data) = int (length src) - pos" using assms by linarith
  have "copy_loop src pos count out
          = copy_loop src (pos + int (length ?data)) (count - int (length ?data)) (output_write out ?data)"
    using assms False by (subst copy_loop.simps) (simp add: Let_def)
  also have "\<dots> = None" using assms l by (intro copy_loop_at_end) simp_all
  finally show ?thesis .
qed

lemma copy_loop_exact:
  assumes "0 \<le> pos" "0 < count" "pos + count \<le> int (length src)" "count \<le> 32768"
  shows "copy_loop src pos count out = Some (output_write out (take (nat count) (drop (nat pos) src)))"
proof -
  let ?data = "take (nat (min 32768 count)) (drop (nat pos) src)"
  have "length ?data = nat count" using assms by (simp add: min_def) linarith
  then have l: "int (length ?data) = count" using assms by linarith
  have d: "?data = take (nat count) (drop (nat pos) src)" using assms by (simp add: min_def)
  have "copy_loop src pos count out
          = copy_loop src (pos + int (length ?data)) (count - int (length ?data)) (output_write out ?data)"
    using assms by (subst copy_loop.simps) (simp add: Let_def)
  also have "\<dots> = Some (output_write out ?data)"
    unfolding l by (subst copy_loop.simps) simp
  finally show ?thesis using d by simp
qed

text \<open>
  C1. A source whose last box is an \<^verbatim>\<open>mdat\<close> with size field 0 (the box extends to the end
  of the file) is parsed without error, with no box marked for rewriting. \<^verbatim>\<open>from_reader\<close>
  gives that box the size of the whole file, so the copy of the box in \<^verbatim>\<open>write\<close> asks for
  more bytes than the source holds after its start, and the loop of
  \<^verbatim>\<open>copy_data_to_destination\<close> never ends: parsing and then writing returns nothing, whatever
  the recipe tables below the top level and the box writers are.
\<close>

theorem roundtrip_diverges_on_open_ended_mdat:
  "parse_then_write m1 m2 box_writer_map mark_offset_boxes_for_rewrite open_mdat_file = None"
proof -
  have l: "int (length open_mdat_file) = 28" by (simp add: open_mdat_file_def ftyp_bytes_def)
  have c1: "copy_loop open_mdat_file 0 16 out = Some (output_write out (take 16 open_mdat_file))" for out
    using copy_loop_exact[of 0 16 open_mdat_file out] l by simp
  have c2: "copy_loop open_mdat_file 16 28 out = None" for out
    using copy_loop_overrun[of 16 open_mdat_file 28 out] l by simp
  have w: "write_boxes box_writer_map open_mdat_file [ftyp_box, open_mdat_box] out [] [] = None" for out
    by (simp add: ftyp_box_sel open_mdat_box_sel copy_data_to_destination_def c1 c2)
  show ?thesis
    by (simp add: parse_then_write_def init_open_mdat_file AVIFWriter_write_def boxes_have_changed_def
        ftyp_box_sel open_mdat_box_sel w del: write_boxes.simps)
qed


lemma from_reader_size_zero:
  assumes "read_integer_of_size src pos end_pos 4 True = Inr (0, pos1)"
      and "from_reader src pos end_pos = Inr (b, pos')"
  shows "size_b b = end_pos \<and> end_b b = pos + end_pos"
  using assms
  by (auto simp: from_reader_def Box_init_def Let_def split: sum.splits option.splits if_splits prod.splits)

text \<open>
  C5. In a 28-byte source, the box header at position 16 with size field 0, read with
  \<^verbatim>\<open>end = 28\<close>, yields a box of size 28 that ends at 44: \<^verbatim>\<open>size = end - size\<close> leaves out the
  start of the box, so the box ends at \<^verbatim>\<open>start + end\<close> and not at \<^verbatim>\<open>end\<close>.
\<close>

theorem from_reader_size_zero_overruns:
  "from_reader open_mdat_file 16 28 = Inr (Box ''mdat'' 28 16 44 None Map.empty Map.empty False, 24)"
  by (simp add: reader_defs open_mdat_file_def ftyp_bytes_def)

lemma expected_box_count_ignored:
  "parse_box_sequence src pos end_pos box_map (Some n) read_boxes
     = parse_box_sequence src pos end_pos box_map None read_boxes"
proof (rule parse_box_sequence_recipe_parse.induct(1)[where
         P = "\<lambda>src pos end_pos box_map ex rb.
                parse_box_sequence src pos end_pos box_map (Some n) rb
                  = parse_box_sequence src pos end_pos box_map None rb"
         and Q = "\<lambda>r s p b. True"])
  fix src :: bytes and pos end_pos :: int and box_map :: "(string \<times> recipe) list"
    and ex :: "int option" and rb :: "box list"
  assume IH: "\<And>b x y ba xa ya xb yb xc yc.
          \<lbrakk>pos \<le> end_pos - 8; from_reader src pos end_pos = Inr b; (x, y) = b;
           recipe_parse (find_recipe box_map (type x)) src y x = Inr ba;
           (xa, ya) = ba; (xb, yb) = ya; (xc, yc) = yb; \<not> \<not> yc \<le> end_b x\<rbrakk>
          \<Longrightarrow> parse_box_sequence src (end_b x) end_pos box_map (Some n)
                (rb @ [set_body (set_sub_boxes (set_header x xa) xb) xc])
              = parse_box_sequence src (end_b x) end_pos box_map None
                (rb @ [set_body (set_sub_boxes (set_header x xa) xb) xc])"
  show "parse_box_sequence src pos end_pos box_map (Some n) rb
          = parse_box_sequence src pos end_pos box_map None rb"
  proof (cases "pos \<le> end_pos - 8")
    case False
    then show ?thesis
      by (subst parse_box_sequence.simps, subst (2) parse_box_sequence.simps) simp
  next
    case True
    show ?thesis
    proof (cases "from_reader src pos end_pos")
      case (Inl e)
      then show ?thesis
        using True by (subst parse_box_sequence.simps, subst (2) parse_box_sequence.simps) simp
    next
      case (Inr b)
      obtain x y where b: "b = (x, y)" by (cases b)
      show ?thesis
      proof (cases "recipe_parse (find_recipe box_map (type x)) src y x")
        case (Inl e)
        then show ?thesis
          using True Inr b by (subst parse_box_sequence.simps, subst (2) parse_box_sequence.simps) simp
      next
        case rp: (Inr ba)
        obtain xa xb xc yc where ba: "ba = (xa, xb, xc, yc)" by (cases ba) auto
        show ?thesis
        proof (cases "yc \<le> end_b x")
          case False
          then show ?thesis
            using True Inr b rp ba
            by (subst parse_box_sequence.simps, subst (2) parse_box_sequence.simps) simp
        next
          case le: True
          have "parse_box_sequence src (end_b x) end_pos box_map (Some n)
                  (rb @ [set_body (set_sub_boxes (set_header x xa) xb) xc])
                = parse_box_sequence src (end_b x) end_pos box_map None
                  (rb @ [set_body (set_sub_boxes (set_header x xa) xb) xc])"
            using IH[OF True Inr b[symmetric] rp ba[symmetric] refl refl] le by simp
          then show ?thesis
            using True Inr b rp ba le
            by (subst parse_box_sequence.simps, subst (2) parse_box_sequence.simps) simp
        qed
      qed
    qed
  qed
qed simp

text \<open>
  C2. \<^verbatim>\<open>parse_box_sequence\<close> with \<^verbatim>\<open>expected_box_count = 2\<close> on a range that holds one
  box returns the list of that one box: the assertion under the mismatch test repeats the
  test and cannot fail.
\<close>

theorem expected_box_count_mismatch_returns:
  "parse_box_sequence infe_bytes 0 12 [] (Some 2) []
     = Inr ([Box ''infe'' 12 0 12 None Map.empty Map.empty False], 12)"
proof -
  have f: "from_reader infe_bytes 0 12 = Inr (Box ''infe'' 12 0 12 None Map.empty Map.empty False, 8)"
    by (simp add: reader_defs infe_bytes_def)
  have r: "recipe_parse (BoxRecipe ''Unknown'' False None None) infe_bytes 8
             (Box ''infe'' 12 0 12 None Map.empty Map.empty False) = Inr (Map.empty, None, Map.empty, 12)"
    by (subst recipe_parse.simps) simp
  have e: "parse_box_sequence infe_bytes 12 12 [] (Some 2) [Box ''infe'' 12 0 12 None Map.empty Map.empty False]
             = Inr ([Box ''infe'' 12 0 12 None Map.empty Map.empty False], 12)"
    by (subst parse_box_sequence.simps) simp
  show ?thesis
    by (subst parse_box_sequence.simps)
       (simp add: f r e find_recipe_def set_body_def set_sub_boxes_def set_header_def)
qed

subsection \<open>Writing an unchanged file\<close>

lemma output_write_at_end:
  "at_end out \<Longrightarrow> output_write out data = \<lparr>content = content out @ data, out_pos = out_pos out + int (length data)\<rparr>"
  by (simp add: at_end_def output_write_def Let_def)

lemma at_end_write: "at_end out \<Longrightarrow> at_end (output_write out data)"
  by (simp add: output_write_at_end) (simp add: at_end_def)

lemma copy_loop_total:
  assumes "0 \<le> pos" "0 \<le> count" "pos + count \<le> int (length src)" "at_end out"
  shows "copy_loop src pos count out
           = Some \<lparr>content = content out @ take (nat count) (drop (nat pos) src),
                   out_pos = out_pos out + count\<rparr>"
  using assms
proof (induction "nat count" arbitrary: pos count out rule: less_induct)
  case less
  show ?case
  proof (cases "count > 0")
    case False
    then have "count = 0" using less.prems(2) by simp
    then show ?thesis by (subst copy_loop.simps) simp
  next
    case True
    let ?k = "min 32768 count"
    let ?data = "take (nat ?k) (drop (nat pos) src)"
    have "length ?data = nat ?k" using less.prems True by (simp add: min_def) linarith
    then have l: "int (length ?data) = ?k" using True by (simp add: min_def)
    have step: "copy_loop src pos count out = copy_loop src (pos + ?k) (count - ?k) (output_write out ?data)"
      using True l by (subst copy_loop.simps) (simp add: Let_def)
    have ow: "output_write out ?data = \<lparr>content = content out @ ?data, out_pos = out_pos out + ?k\<rparr>"
      using output_write_at_end[OF less.prems(4), of ?data] l by simp
    have ae: "at_end (output_write out ?data)" using less.prems(4) by (rule at_end_write)
    have "copy_loop src (pos + ?k) (count - ?k) (output_write out ?data)
            = Some \<lparr>content = content (output_write out ?data) @ take (nat (count - ?k)) (drop (nat (pos + ?k)) src),
                     out_pos = out_pos (output_write out ?data) + (count - ?k)\<rparr>"
      using less.prems True ae by (intro less.hyps) (auto simp: min_def)
    moreover have "?data @ take (nat (count - ?k)) (drop (nat (pos + ?k)) src) = take (nat count) (drop (nat pos) src)"
    proof -
      have "nat (pos + ?k) = nat pos + nat ?k" using less.prems True by (simp add: nat_add_distrib min_def)
      then have "drop (nat (pos + ?k)) src = drop (nat ?k) (drop (nat pos) src)"
        by (simp add: add.commute)
      moreover have "nat count = nat ?k + nat (count - ?k)" using True by (simp add: min_def) linarith
      ultimately show ?thesis by (simp add: take_add)
    qed
    ultimately show ?thesis unfolding step ow by simp
  qed
qed


lemma tiles_append:
  "tiles p (xs @ ys) \<longleftrightarrow> tiles p xs \<and> tiles (tiles_end p xs) ys"
  by (induction xs arbitrary: p) (auto simp: tiles_end_def)

lemma tiles_end_mono: "tiles p bs \<Longrightarrow> p \<le> tiles_end p bs"
proof (induction bs arbitrary: p)
  case Nil
  then show ?case by (simp add: tiles_end_def)
next
  case (Cons b bs)
  from Cons.prems have t: "tiles (end_b b) bs" and b: "start b = p" "8 \<le> size_b b" "end_b b = start b + size_b b"
    by auto
  have "end_b b \<le> tiles_end (end_b b) bs" using Cons.IH[OF t] .
  moreover have "tiles_end p (b # bs) = tiles_end (end_b b) bs" by (simp add: tiles_end_def)
  ultimately show ?case using b by simp
qed

lemma write_clean_tiles:
  assumes "tiles p bs" "0 \<le> p" "tiles_end p bs \<le> int (length src)" "at_end out"
  shows "\<exists>ms. write_boxes w src bs out mdats phs
           = Some (Inr (\<lparr>content = content out @ take (nat (tiles_end p bs - p)) (drop (nat p) src),
                          out_pos = out_pos out + (tiles_end p bs - p)\<rparr>, ms, phs))"
  using assms
proof (induction bs arbitrary: p out mdats)
  case Nil
  then show ?case by (simp add: tiles_end_def)
next
  case (Cons b bs)
  from Cons.prems(1) have b: "start b = p" "8 \<le> size_b b" "end_b b = p + size_b b" "\<not> needs_rewrite b"
    and t: "tiles (end_b b) bs" by auto
  have e: "tiles_end p (b # bs) = tiles_end (end_b b) bs" by (simp add: tiles_end_def)
  have le: "end_b b \<le> tiles_end (end_b b) bs" using t by (rule tiles_end_mono)
  have fit: "p + size_b b \<le> int (length src)" using le e Cons.prems(3) b(3) by simp
  let ?out1 = "\<lparr>content = content out @ take (nat (size_b b)) (drop (nat p) src),
                 out_pos = out_pos out + size_b b\<rparr>"
  have c: "copy_loop src p (size_b b) out = Some ?out1"
    using copy_loop_total[OF Cons.prems(2) _ fit Cons.prems(4)] b(2) by simp
  have len: "length (take (nat (size_b b)) (drop (nat p) src)) = nat (size_b b)"
    using fit Cons.prems(2) b(2) by simp
  have ae: "at_end ?out1" using Cons.prems(4) len b(2) by (simp add: at_end_def)
  let ?mdats = "if type b = ''mdat'' then mdats @ [(b, out_pos out)] else mdats"
  from Cons.IH[OF t _ _ ae, of ?mdats] Cons.prems(2,3) b(2,3) e obtain ms where
    r: "write_boxes w src bs ?out1 ?mdats phs
          = Some (Inr (\<lparr>content = content ?out1 @ take (nat (tiles_end (end_b b) bs - end_b b)) (drop (nat (end_b b)) src),
                          out_pos = out_pos ?out1 + (tiles_end (end_b b) bs - end_b b)\<rparr>, ms, phs))"
    by auto
  have join: "take (nat (size_b b)) (drop (nat p) src)
                @ take (nat (tiles_end (end_b b) bs - end_b b)) (drop (nat (end_b b)) src)
              = take (nat (tiles_end (end_b b) bs - p)) (drop (nat p) src)"
  proof -
    have "nat (end_b b) = nat p + nat (size_b b)" using b(2,3) Cons.prems(2) by (simp add: nat_add_distrib)
    then have "drop (nat (end_b b)) src = drop (nat (size_b b)) (drop (nat p) src)" by (simp add: add.commute)
    moreover have "nat (tiles_end (end_b b) bs - p) = nat (size_b b) + nat (tiles_end (end_b b) bs - end_b b)"
      using le b(2,3) by linarith
    ultimately show ?thesis by (simp add: take_add)
  qed
  have "write_boxes w src (b # bs) out mdats phs = write_boxes w src bs ?out1 ?mdats phs"
    using b c by (simp add: copy_data_to_destination_def Let_def)
  then show ?case
    unfolding r e using join b(3) by (intro exI[of _ ms]) (simp add: algebra_simps)
qed


lemma from_reader_clean: "from_reader src pos end_pos = Inr (b, pos1) \<Longrightarrow> \<not> needs_rewrite b"
  by (auto simp: from_reader_def Box_init_def Let_def
           split: sum.splits option.splits if_splits prod.splits)

lemma set_fields_sel:
  "start (set_body (set_sub_boxes (set_header b h) sb) bd) = start b"
  "size_b (set_body (set_sub_boxes (set_header b h) sb) bd) = size_b b"
  "end_b (set_body (set_sub_boxes (set_header b h) sb) bd) = end_b b"
  "needs_rewrite (set_body (set_sub_boxes (set_header b h) sb) bd) = needs_rewrite b"
  by (simp_all add: set_body_def set_sub_boxes_def set_header_def)

lemma parse_box_sequence_tiles:
  "parse_box_sequence src pos end_pos box_map ex rb = Inr (bs, p')
     \<Longrightarrow> \<exists>new. bs = rb @ new \<and> tiles pos new \<and> p' = tiles_end pos new"
proof -
  have "\<forall>bs p'. parse_box_sequence src pos end_pos box_map ex rb = Inr (bs, p')
          \<longrightarrow> (\<exists>new. bs = rb @ new \<and> tiles pos new \<and> p' = tiles_end pos new)"
  proof (rule parse_box_sequence_recipe_parse.induct(1)[where
         P = "\<lambda>src pos end_pos box_map ex rb.
                \<forall>bs p'. parse_box_sequence src pos end_pos box_map ex rb = Inr (bs, p')
                  \<longrightarrow> (\<exists>new. bs = rb @ new \<and> tiles pos new \<and> p' = tiles_end pos new)"
         and Q = "\<lambda>r s p b. True"])
    fix src :: bytes and pos end_pos :: int and box_map :: "(string \<times> recipe) list"
      and ex :: "int option" and rb :: "box list"
    assume IH: "\<And>b x y ba xa ya xb yb xc yc.
          \<lbrakk>pos \<le> end_pos - 8; from_reader src pos end_pos = Inr b; (x, y) = b;
           recipe_parse (find_recipe box_map (type x)) src y x = Inr ba;
           (xa, ya) = ba; (xb, yb) = ya; (xc, yc) = yb; \<not> \<not> yc \<le> end_b x\<rbrakk>
          \<Longrightarrow> \<forall>bs p'. parse_box_sequence src (end_b x) end_pos box_map ex
                        (rb @ [set_body (set_sub_boxes (set_header x xa) xb) xc]) = Inr (bs, p')
                \<longrightarrow> (\<exists>new. bs = (rb @ [set_body (set_sub_boxes (set_header x xa) xb) xc]) @ new
                       \<and> tiles (end_b x) new \<and> p' = tiles_end (end_b x) new)"
    show "\<forall>bs p'. parse_box_sequence src pos end_pos box_map ex rb = Inr (bs, p')
            \<longrightarrow> (\<exists>new. bs = rb @ new \<and> tiles pos new \<and> p' = tiles_end pos new)"
    proof (intro allI impI)
      fix bs p'
      assume r: "parse_box_sequence src pos end_pos box_map ex rb = Inr (bs, p')"
      show "\<exists>new. bs = rb @ new \<and> tiles pos new \<and> p' = tiles_end pos new"
      proof (cases "pos \<le> end_pos - 8")
        case False
        then have "bs = rb" "p' = pos"
          using r by (subst (asm) parse_box_sequence.simps, simp split: if_splits)+
        then show ?thesis by (intro exI[of _ "[]"]) (simp add: tiles_end_def)
      next
        case True
        from r True obtain x y where fr: "from_reader src pos end_pos = Inr (x, y)"
          by (subst (asm) parse_box_sequence.simps) (auto split: sum.splits)
        from r True fr obtain xa xb xc yc where
          rp: "recipe_parse (find_recipe box_map (type x)) src y x = Inr (xa, xb, xc, yc)"
          by (subst (asm) parse_box_sequence.simps) (auto split: sum.splits)
        let ?x' = "set_body (set_sub_boxes (set_header x xa) xb) xc"
        from r True fr rp have le: "yc \<le> end_b x"
          and rec: "parse_box_sequence src (end_b x) end_pos box_map ex (rb @ [?x']) = Inr (bs, p')"
          by (subst (asm) parse_box_sequence.simps, simp split: if_splits)+
        from IH[OF True fr refl rp refl refl refl] le rec obtain new' where
          n: "bs = (rb @ [?x']) @ new'" "tiles (end_b x) new'" "p' = tiles_end (end_b x) new'"
          by auto
        have x: "start x = pos" "end_b x = pos + size_b x" "8 \<le> size_b x" "\<not> needs_rewrite x"
          using from_reader_end[OF fr] from_reader_clean[OF fr] by auto
        show ?thesis
          using n x by (intro exI[of _ "?x' # new'"]) (simp add: set_fields_sel tiles_end_def)
      qed
    qed
  qed simp
  then show "parse_box_sequence src pos end_pos box_map ex rb = Inr (bs, p')
     \<Longrightarrow> \<exists>new. bs = rb @ new \<and> tiles pos new \<and> p' = tiles_end pos new"
    by blast
qed

text \<open>
  Where the round trip does hold: when the source is parsed and the last top-level box ends
  with the source, writing without any change returns the bytes of the source.
\<close>

lemma roundtrip_of_exact_tiling:
  assumes "ParsedFile_init m1 m2 src = Inr self"
      and "tiles_end 0 (boxes self) = int (length src)"
  shows "AVIFWriter_write w mark self = Some (Inr \<lparr>content = src, out_pos = int (length src)\<rparr>)"
proof -
  from assms(1) obtain p' where
    p: "parse_box_sequence src 0 (int (length src)) (MAP_TOP_LEVEL m1 m2) None [] = Inr (boxes self, p')"
    and rd: "reader self = src"
    by (auto simp: ParsedFile_init_def Let_def split: if_splits sum.splits prod.splits)
  from parse_box_sequence_tiles[OF p] have t: "tiles 0 (boxes self)" by simp
  have clean: "\<not> list_ex needs_rewrite bs" if "tiles q bs" for q bs
    using that by (induction bs arbitrary: q) auto
  have nc: "\<not> boxes_have_changed self" using clean[OF t] by (simp add: boxes_have_changed_def)
  have ae: "at_end \<lparr>content = [], out_pos = 0\<rparr>" by (simp add: at_end_def)
  from write_clean_tiles[OF t _ _ ae, of src w "[]" "[]"] assms(2) obtain ms where
    "write_boxes w src (boxes self) \<lparr>content = [], out_pos = 0\<rparr> [] []
       = Some (Inr (\<lparr>content = src, out_pos = int (length src)\<rparr>, ms, []))"
    by auto
  then show ?thesis using nc rd by (simp add: AVIFWriter_write_def)
qed

section \<open>Results for the offset patching\<close>

lemma moved_mdat_sel: "start moved_mdat = 100" "end_b moved_mdat = 200"
  by (simp_all add: moved_mdat_def)

text \<open>
  C3. One \<^verbatim>\<open>mdat\<close> covers the source bytes 100 to 199 and starts at 120 in the output. A
  placeholder with value 50, which lies in no \<^verbatim>\<open>mdat\<close>, is not refused: the search loop ends
  without \<^verbatim>\<open>break\<close>, its variables hold the last \<^verbatim>\<open>mdat\<close>, and the placeholder is
  overwritten with 50 + 20 = 70.
\<close>

theorem offset_outside_every_mdat_is_patched:
  "patch_placeholders [(moved_mdat, 120)] out_before_patch [stray_placeholder]
     = Inr \<lparr>content = [CHR 0x01, CHR 0x02, CHR 0x03, CHR 0x04, CHR 0x00, CHR 0x00, CHR 0x00, CHR 0x46],
            out_pos = 8\<rparr>"
  by (simp add: patch_placeholder_def get_offset_list_def stray_placeholder_def moved_mdat_sel
      write_delta_def write_integer_of_size_def out_before_patch_def output_write_def output_seek_def
      numeral_eq_Suc char_of_def bit_iff_odd Let_def)



lemma find_mdat_last:
  assumes "offsets \<noteq> []"
      and "\<forall>(m, n) \<in> set mdat_boxes. \<forall>off \<in> set offsets. \<not> (start m \<le> off \<and> off < end_b m)"
  shows "find_mdat offsets mdat_boxes cur = Inr (if mdat_boxes = [] then cur else Some (last mdat_boxes))"
  using assms
proof (induction mdat_boxes arbitrary: cur)
  case Nil
  then show ?case by simp
next
  case (Cons a rest)
  obtain m n where a: "a = (m, n)" by (cases a)
  from Cons.prems a have none: "\<forall>off \<in> set offsets. \<not> (start m \<le> off \<and> off < end_b m)" by auto
  obtain o1 where o1: "o1 \<in> set offsets" using Cons.prems(1) by (cases offsets) auto
  have na: "\<not> list_all id (map (\<lambda>off. start m \<le> off \<and> off < end_b m) offsets)"
    using none o1 by (auto simp: list_all_iff)
  have ne: "\<not> list_ex id (map (\<lambda>off. start m \<le> off \<and> off < end_b m) offsets)"
    using none by (auto simp: list_ex_iff)
  have "find_mdat offsets (a # rest) cur = find_mdat offsets rest (Some (m, n))"
    using a na ne by (simp add: Let_def)
  also have "\<dots> = Inr (if rest = [] then Some (m, n) else Some (last rest))"
    using Cons.IH[OF Cons.prems(1)] Cons.prems(2) by simp
  finally show ?case using a by simp
qed

text \<open>Offsets of which some, but not all, lie in an \<^verbatim>\<open>mdat\<close> do stop the run.\<close>

lemma find_mdat_straddle:
  assumes "\<exists>off \<in> set offsets. start m \<le> off \<and> off < end_b m"
      and "\<exists>off \<in> set offsets. \<not> (start m \<le> off \<and> off < end_b m)"
  shows "find_mdat offsets ((m, n) # rest) cur = Inl AssertionError"
proof -
  have "\<not> list_all id (map (\<lambda>off. start m \<le> off \<and> off < end_b m) offsets)"
    using assms(2) by (auto simp: list_all_iff)
  moreover have "list_ex id (map (\<lambda>off. start m \<le> off \<and> off < end_b m) offsets)"
    using assms(1) by (auto simp: list_ex_iff)
  ultimately show ?thesis by (simp add: Let_def)
qed




lemma length_be_bytes [simp]: "length (be_bytes n v) = n"
  by (induction n arbitrary: v) simp_all

section \<open>Results for the whole of \<^verbatim>\<open>write\<close>\<close>

subsection \<open>The first loop\<close>






subsection \<open>The marked box is the one \<^verbatim>\<open>get_box_from_hierarchy\<close> returns\<close>

lemma first_index_find:
  "first_index t bs = None \<Longrightarrow> List.find (\<lambda>b. type b = t) bs = None"
  "first_index t bs = Some i \<Longrightarrow> i < length bs \<and> List.find (\<lambda>b. type b = t) bs = Some (bs ! i)"
proof (induction bs arbitrary: i)
  case Nil
  { case 1 then show ?case by simp }
  { case 2 then show ?case by simp }
next
  case (Cons b bs)
  { case 1 then show ?case using Cons.IH(1) by (simp split: if_splits) }
  { case 2 then show ?case using Cons.IH(2) by (auto split: if_splits) }
qed

lemma children_at_snoc:
  "children_at bs path = Some arr \<Longrightarrow> i < length arr \<Longrightarrow>
     children_at bs (path @ [i]) = sub_boxes (arr ! i)"
proof (induction path arbitrary: bs)
  case Nil
  then show ?case by (simp split: option.splits)
next
  case (Cons j path)
  then show ?case by (auto split: if_splits option.splits)
qed

lemma locate_returns:
  assumes "case box_array of None \<Rightarrow> True | Some (path, arr) \<Rightarrow> children_at self_boxes path = Some arr"
  shows "get_box_from_hierarchy self_boxes (h # hs) (map_option snd box_array)
           = Inr (case locate self_boxes h hs box_array of None \<Rightarrow> None | Some path \<Rightarrow> box_at self_boxes path)"
  using assms
proof (induction hs arbitrary: h box_array)
  case Nil
  obtain path arr where pa: "(case box_array of None \<Rightarrow> ([], self_boxes) | Some a \<Rightarrow> a) = (path, arr)"
    by (cases "case box_array of None \<Rightarrow> ([], self_boxes) | Some a \<Rightarrow> a")
  have arr: "(case map_option snd box_array of None \<Rightarrow> self_boxes | Some a \<Rightarrow> a) = arr"
    using pa by (cases box_array) auto
  have ch: "children_at self_boxes path = Some arr"
    using pa Nil.prems by (cases box_array) auto
  show ?case
  proof (cases "first_index h arr")
    case None
    then show ?thesis using first_index_find(1)[OF None] pa arr by simp
  next
    case (Some i)
    from first_index_find(2)[OF Some] have i: "i < length arr" "List.find (\<lambda>b. type b = h) arr = Some (arr ! i)"
      by simp_all
    have "box_at self_boxes (path @ [i]) = Some (arr ! i)" using ch i(1) by (simp add: box_at_def)
    then show ?thesis using Some i pa arr by simp
  qed
next
  case (Cons h' hs')
  obtain path arr where pa: "(case box_array of None \<Rightarrow> ([], self_boxes) | Some a \<Rightarrow> a) = (path, arr)"
    by (cases "case box_array of None \<Rightarrow> ([], self_boxes) | Some a \<Rightarrow> a")
  have arr: "(case map_option snd box_array of None \<Rightarrow> self_boxes | Some a \<Rightarrow> a) = arr"
    using pa by (cases box_array) auto
  have ch: "children_at self_boxes path = Some arr"
    using pa Cons.prems by (cases box_array) auto
  show ?case
  proof (cases "first_index h arr")
    case None
    then show ?thesis using first_index_find(1)[OF None] pa arr by simp
  next
    case (Some i)
    from first_index_find(2)[OF Some] have i: "i < length arr" "List.find (\<lambda>b. type b = h) arr = Some (arr ! i)"
      by simp_all
    let ?next = "case sub_boxes (arr ! i) of None \<Rightarrow> None | Some subs \<Rightarrow> Some (path @ [i], subs)"
    have inv: "case ?next of None \<Rightarrow> True | Some (path', arr') \<Rightarrow> children_at self_boxes path' = Some arr'"
      using children_at_snoc[OF ch i(1)] by (simp split: option.splits)
    have sb: "map_option snd ?next = sub_boxes (arr ! i)" by (simp split: option.splits)
    have "get_box_from_hierarchy self_boxes (h # h' # hs') (map_option snd box_array)
            = get_box_from_hierarchy self_boxes (h' # hs') (sub_boxes (arr ! i))"
      using i(2) arr by simp
    also have "\<dots> = Inr (case locate self_boxes h' hs' ?next of None \<Rightarrow> None
                          | Some path \<Rightarrow> box_at self_boxes path)"
      using Cons.IH[OF inv] sb by simp
    also have "locate self_boxes h' hs' ?next = locate self_boxes h (h' # hs') box_array"
      using Some pa by simp
    finally show ?thesis .
  qed
qed

subsection \<open>Marking keeps the layout\<close>

lemma mark_for_rewrite_sel [simp]:
  "type (mark_for_rewrite b) = type b" "start (mark_for_rewrite b) = start b"
  "size_b (mark_for_rewrite b) = size_b b" "end_b (mark_for_rewrite b) = end_b b"
  by (simp_all add: mark_for_rewrite_def)

lemma set_sub_boxes_sel [simp]:
  "type (set_sub_boxes b s) = type b" "start (set_sub_boxes b s) = start b"
  "size_b (set_sub_boxes b s) = size_b b" "end_b (set_sub_boxes b s) = end_b b"
  by (simp_all add: set_sub_boxes_def)







subsection \<open>The recorded regions do not overlap\<close>



subsection \<open>One placeholder\<close>



lemma write_delta_out_of_range:
  assumes "\<not> (0 \<le> value_p p + D \<and> value_p p + D \<le> 2 ^ (8 * nat (size_p p)) - 1)"
  shows "isl (write_delta p out D)"
proof (cases "size_p p < 0")
  case True
  then show ?thesis by (simp add: write_delta_def Let_def)
next
  case False
  then have "nat (size_p p * 8) = 8 * nat (size_p p)" by auto
  then show ?thesis using assms False by (auto simp: write_delta_def Let_def)
qed

lemma write_delta_negative_position:
  assumes "file_pos p < 0"
  shows "isl (write_delta p out D)"
  using assms
  by (auto simp: write_delta_def output_seek_def Let_def split: sum.splits)

lemma write_delta_keeps:
  assumes "write_delta p out D = Inr out'"
  shows "out_pos out' = out_pos out"
  using assms
  by (auto simp: write_delta_def output_seek_def Let_def split: sum.splits if_splits)


subsection \<open>All placeholders\<close>




subsection \<open>The bytes after the patching\<close>











subsection \<open>One placeholder among the others\<close>












subsection \<open>The offsets after \<^verbatim>\<open>write\<close>\<close>

text \<open>The boxes of a parsed file are laid out from position 0 on.\<close>

lemma tiles_laid_out: "tiles p bs \<Longrightarrow> laid_out p bs"
  by (induction bs arbitrary: p) auto

lemma parsed_boxes_laid_out:
  assumes "ParsedFile_init m1 m2 src = Inr self"
  shows "laid_out 0 (boxes self)"
proof -
  from assms obtain p' where
    "parse_box_sequence src 0 (int (length src)) (MAP_TOP_LEVEL m1 m2) None [] = Inr (boxes self, p')"
    by (auto simp: ParsedFile_init_def Let_def split: if_splits sum.splits prod.splits)
  from parse_box_sequence_tiles[OF this] show ?thesis by (simp add: tiles_laid_out)
qed



text \<open>A run that the check stops: the first \<^verbatim>\<open>mdat\<close> moves by -4 and the base offset 2 of an
  extent inside it would become -2.\<close>

lemma write_stops_on_negative_base:
  "AVIFWriter_write shrinking_writers ParsedFile_mark_offset_boxes_for_rewrite two_mdat_file
     = Some (Inl AssertionError)"
proof -
  let ?meta = "[CHR 0x00, CHR 0x00, CHR 0x00, CHR 0x0C] @ ''meta'' @ [CHR 0x00, CHR 0x00, CHR 0x00, CHR 0x02]"
  let ?m1 = "[CHR 0x00, CHR 0x00, CHR 0x00, CHR 0x0C] @ ''mdat'' @ [CHR 0x01, CHR 0x02, CHR 0x03, CHR 0x04]"
  let ?free = "[CHR 0x00, CHR 0x00, CHR 0x00, CHR 0x08] @ ''free''"
  let ?m2 = "[CHR 0x00, CHR 0x00, CHR 0x00, CHR 0x0C] @ ''mdat'' @ [CHR 0x05, CHR 0x06, CHR 0x07, CHR 0x08]"
  let ?marked = "[Box ''meta'' 16 0 16 (Some [Box ''iloc'' 8 8 16 None Map.empty Map.empty True])
                    Map.empty Map.empty True,
                  first_mdat, Box ''free'' 8 28 36 None Map.empty Map.empty True, second_mdat]"
  have chg: "boxes_have_changed two_mdat_file"
    by (simp add: boxes_have_changed_def two_mdat_file_def)
  have mk: "ParsedFile_mark_offset_boxes_for_rewrite (boxes two_mdat_file) = ?marked"
    by (simp add: ParsedFile_mark_offset_boxes_for_rewrite_def two_mdat_file_def first_mdat_def
        second_mdat_def mark_for_rewrite_def set_sub_boxes_def)
  have len: "int (length two_mdat_src) = 48" by (simp add: two_mdat_src_def)
  have c1: "copy_data_to_destination two_mdat_src \<lparr>content = ?meta, out_pos = 12\<rparr> 16 12
              = Some \<lparr>content = ?meta @ ?m1, out_pos = 24\<rparr>"
    using copy_loop_total[of 16 12 two_mdat_src "\<lparr>content = ?meta, out_pos = 12\<rparr>"] len
    by (simp add: copy_data_to_destination_def at_end_def two_mdat_src_def)
  have c2: "copy_data_to_destination two_mdat_src \<lparr>content = ?meta @ ?m1 @ ?free, out_pos = 32\<rparr> 36 12
              = Some \<lparr>content = ?meta @ ?m1 @ ?free @ ?m2, out_pos = 44\<rparr>"
    using copy_loop_total[of 36 12 two_mdat_src "\<lparr>content = ?meta @ ?m1 @ ?free, out_pos = 32\<rparr>"] len
    by (simp add: copy_data_to_destination_def at_end_def two_mdat_src_def)
  have first: "write_boxes shrinking_writers two_mdat_src ?marked \<lparr>content = [], out_pos = 0\<rparr> [] []
           = Some (Inr (\<lparr>content = ?meta @ ?m1 @ ?free @ ?m2, out_pos = 44\<rparr>,
                        [(first_mdat, 12), (second_mdat, 32)],
                        [PlaceholderFileOffset 8 4 2 [PlaceholderFileOffset 12 4 16 []]]))"
    using c1 c2
    by (simp add: shrinking_writers_def first_mdat_def second_mdat_def output_write_def Let_def)
  have "patch_placeholders [(first_mdat, 12), (second_mdat, 32)]
          \<lparr>content = ?meta @ ?m1 @ ?free @ ?m2, out_pos = 44\<rparr>
          [PlaceholderFileOffset 8 4 2 [PlaceholderFileOffset 12 4 16 []]] = Inl AssertionError"
    by (simp add: patch_placeholder_def get_offset_list_def first_mdat_def write_delta_def Let_def)
  then show ?thesis
    using chg first unfolding AVIFWriter_write_def mk
    by (simp add: two_mdat_file_def del: write_boxes.simps patch_placeholders.simps)
qed

section \<open>Results for the Sequence Header decoder\<close>













end
